theory Spec2Isabelle
  imports Complex_Main
begin

section \<open>Conventions\<close>

text \<open>
  The theory embeds \<^verbatim>\<open>src/shared/ebm_native/InnerBag.cpp\<close>, as a release build compiles it:
  \<^verbatim>\<open>EBM_ASSERT\<close> and the block under \<^verbatim>\<open>#ifndef NDEBUG\<close> compile to nothing, and the
  \<^verbatim>\<open>LOG_0\<close> calls change nothing that the functions return or store.

  \<^item> A \<^verbatim>\<open>size_t\<close> is a natural number. The one operation on it that could wrap, the
    increment of an occurrence count, is written modulo \<^verbatim>\<open>SIZE_MAX + 1\<close>; the loop
    counters stay below a bound that is itself a \<^verbatim>\<open>size_t\<close>.
  \<^item> A pointer is an \<open>addr option\<close>, \<open>None\<close> for \<^verbatim>\<open>nullptr\<close>. Memory is a map from
    addresses to blocks, and every function takes the state and returns the new one.
  \<^item> A function whose C++ run has undefined behaviour (an access past the end of an
    array, \<^verbatim>\<open>free\<close> of a block that is not live, a member call on a pointer that does
    not point to a live \<^verbatim>\<open>InnerBag\<close>) returns \<open>None\<close> for the whole run; a run that
    returns is \<open>Some\<close> of the returned pointer and the state.
\<close>

section \<open>Values and collaborators\<close>

text \<open>
  \<^verbatim>\<open>FloatFast\<close> and \<^verbatim>\<open>FloatBig\<close> are declared outside \<^verbatim>\<open>InnerBag.cpp\<close>. A value of either
  type is a NaN, an infinity or a finite number; the tests the code applies to a total
  (\<^verbatim>\<open>std::isnan\<close>, \<^verbatim>\<open>std::isinf\<close>, \<^verbatim>\<open><= 0\<close>) are exact on such values. Everything that
  rounds (conversions from \<^verbatim>\<open>size_t\<close>, the product, the summation) is a parameter.
\<close>

datatype fl = NaN | PosInf | NegInf | Finite real

definition isnan :: "fl \<Rightarrow> bool" where
  "isnan x = (case x of NaN \<Rightarrow> True | _ \<Rightarrow> False)"

definition isinf :: "fl \<Rightarrow> bool" where
  "isinf x = (case x of PosInf \<Rightarrow> True | NegInf \<Rightarrow> True | _ \<Rightarrow> False)"

definition le_zero :: "fl \<Rightarrow> bool" where
  \<comment> \<open>\<^verbatim>\<open>total <= 0\<close>: false on NaN, as every IEEE comparison with NaN.\<close>
  "le_zero x = (case x of Finite r \<Rightarrow> r \<le> 0 | NegInf \<Rightarrow> True | _ \<Rightarrow> False)"

definition gt_zero :: "fl \<Rightarrow> bool" where
  "gt_zero x = (case x of Finite r \<Rightarrow> 0 < r | PosInf \<Rightarrow> True | _ \<Rightarrow> False)"

text \<open>
  The collaborators of \<^verbatim>\<open>InnerBag.cpp\<close> whose code is in other files of the repository:
  the generator (\<^verbatim>\<open>RandomDeterministic::NextFast\<close>, here a function from the generator's
  state and the bound to the drawn index and the advanced state), the summation
  \<^verbatim>\<open>AddPositiveFloatsSafeBig(cVals, pVals)\<close>, the conversions \<^verbatim>\<open>static_cast<FloatFast>\<close> and
  \<^verbatim>\<open>static_cast<FloatBig>\<close> of a \<^verbatim>\<open>size_t\<close>, the \<^verbatim>\<open>FloatFast\<close> product, the allocator's
  answer to its \<open>k\<close>-th request (for \<open>n\<close> items), and the largest \<^verbatim>\<open>size_t\<close>.
\<close>

record 'r env =
  NextFast :: "'r \<Rightarrow> nat \<Rightarrow> nat \<times> 'r"
  AddPositiveFloatsSafeBig :: "nat \<Rightarrow> fl list \<Rightarrow> fl"
  size_to_FloatFast :: "nat \<Rightarrow> fl"
  size_to_FloatBig :: "nat \<Rightarrow> fl"
  FloatFast_mul :: "fl \<Rightarrow> fl \<Rightarrow> fl"
  EbmMalloc_ok :: "nat \<Rightarrow> nat \<Rightarrow> bool"
  SIZE_MAX :: nat

section \<open>Memory\<close>

type_synonym addr = nat

text \<open>The \<^verbatim>\<open>InnerBag\<close> object: two owned arrays and the total. A pointer is
  \<open>None\<close> when it is \<^verbatim>\<open>nullptr\<close>; the total is \<open>None\<close> until it is assigned.\<close>

record InnerBag =
  m_aCountOccurrences :: "addr option"
  m_aWeights :: "addr option"
  m_weightTotal :: "fl option"

datatype obj =
    Uninit
  | Bag InnerBag
  | SizeArr "nat list"
  | FloatArr "fl list"
  | PtrArr "addr option list"

text \<open>The state a call works on: the live blocks, the number of allocation
  requests made so far (the next block's address), and the generator behind \<^verbatim>\<open>pRng\<close>.\<close>

record 'r state =
  heap :: "addr \<Rightarrow> obj option"
  brk :: nat
  rng :: 'r

definition EbmMalloc :: "'r env \<Rightarrow> nat \<Rightarrow> 'r state \<Rightarrow> addr option \<times> 'r state" where
  \<comment> \<open>Modelled from the spec: \<^verbatim>\<open>EbmMalloc<T>(cItems)\<close>, declared outside \<^verbatim>\<open>InnerBag.cpp\<close>.
      An allocation either fails, which is signalled by \<^verbatim>\<open>nullptr\<close>, or returns a fresh
      block of indeterminate contents (\<open>Uninit\<close>). Blocks are numbered by the request
      that made them, so an address is never handed out twice.\<close>
  "EbmMalloc env cItems st =
     (if EbmMalloc_ok env (brk st) cItems
      then (Some (brk st), st\<lparr>heap := (heap st)(brk st \<mapsto> Uninit), brk := brk st + 1\<rparr>)
      else (None, st\<lparr>brk := brk st + 1\<rparr>))"

definition free :: "addr option \<Rightarrow> 'r state \<Rightarrow> 'r state option" where
  \<comment> \<open>\<^verbatim>\<open>free(nullptr)\<close> does nothing; freeing a block that is not live is undefined
      behaviour (\<open>None\<close>).\<close>
  "free p st =
     (case p of
        None \<Rightarrow> Some st
      | Some a \<Rightarrow>
          (case heap st a of
             None \<Rightarrow> None
           | Some _ \<Rightarrow> Some (st\<lparr>heap := (heap st)(a := None)\<rparr>)))"

definition store :: "addr \<Rightarrow> obj \<Rightarrow> 'r state \<Rightarrow> 'r state" where
  \<comment> \<open>A write through a pointer to a block the running function has just acquired.\<close>
  "store a v st = st\<lparr>heap := (heap st)(a \<mapsto> v)\<rparr>"

section \<open>The bag and its release\<close>

text \<open>\<^verbatim>\<open>InnerBag::Free\<close> (lines 163 to 167) and \<^verbatim>\<open>InnerBag::InitializeUnfailing\<close> (lines
  169 to 172).\<close>

definition InnerBag_Free :: "addr \<Rightarrow> 'r state \<Rightarrow> 'r state option" where
  "InnerBag_Free this st =
     (case heap st this of
        Some (Bag b) \<Rightarrow>
          (case free (m_aCountOccurrences b) st of
             None \<Rightarrow> None
           | Some st1 \<Rightarrow>
               (case free (m_aWeights b) st1 of
                  None \<Rightarrow> None
                | Some st2 \<Rightarrow> free (Some this) st2))
      | _ \<Rightarrow> None)"

definition InitializeUnfailing :: "addr \<Rightarrow> 'r state \<Rightarrow> 'r state" where
  "InitializeUnfailing this st =
     store this
       (Bag \<lparr>m_aCountOccurrences = None, m_aWeights = None,
             m_weightTotal = (case heap st this of Some (Bag b) \<Rightarrow> m_weightTotal b | _ \<Rightarrow> None)\<rparr>) st"

section \<open>Weighted bootstrap\<close>

text \<open>
  \<^verbatim>\<open>InnerBag::GenerateSingleInnerBag\<close> (lines 22 to 99). \<open>sampling_loop\<close> is the loop of
  lines 61 to 64 on the generator copied out of \<^verbatim>\<open>*pRng\<close>; the copy is written back
  (line 65) before the weights are computed. The two loops that fill the weights
  (lines 69 to 72 and 79 to 83) write every index below \<open>cSamples\<close> once.
\<close>

function sampling_loop ::
  "'r env \<Rightarrow> nat \<Rightarrow> nat \<Rightarrow> 'r \<Rightarrow> nat list \<Rightarrow> (nat list \<times> 'r) option" where
  "sampling_loop env cSamples iSample cpuRng aCountOccurrences =
     (if iSample < cSamples then
        (case NextFast env cpuRng cSamples of
           (iCountOccurrences, cpuRng') \<Rightarrow>
             if iCountOccurrences < length aCountOccurrences then
               sampling_loop env cSamples (iSample + 1) cpuRng'
                 (aCountOccurrences[iCountOccurrences :=
                    (aCountOccurrences ! iCountOccurrences + 1) mod (SIZE_MAX env + 1)])
             else None)
      else Some (aCountOccurrences, cpuRng))"
  by pat_completeness auto
termination
  by (relation "measure (\<lambda>(env, cSamples, iSample, cpuRng, a). cSamples - iSample)") auto

declare sampling_loop.simps [simp del]

definition invalid_total :: "fl \<Rightarrow> bool" where
  "invalid_total t = (isnan t \<or> isinf t \<or> le_zero t)"

definition GenerateSingleInnerBag ::
  "'r env \<Rightarrow> nat \<Rightarrow> fl list option \<Rightarrow> 'r state \<Rightarrow> (addr option \<times> 'r state) option" where
  "GenerateSingleInnerBag env cSamples aWeights st0 =
     (case EbmMalloc env 1 st0 of
        (None, st1) \<Rightarrow> Some (None, st1)
      | (Some pRet, st1) \<Rightarrow>
          let st2 = InitializeUnfailing pRet st1 in
          (case EbmMalloc env cSamples st2 of
             (None, st3) \<Rightarrow> map_option (Pair None) (InnerBag_Free pRet st3)
           | (Some aCountOccurrences, st3) \<Rightarrow>
               let bag1 = \<lparr>m_aCountOccurrences = Some aCountOccurrences, m_aWeights = None,
                            m_weightTotal = None\<rparr>;
                   st4 = store pRet (Bag bag1) st3
               in
               (case EbmMalloc env cSamples st4 of
                  (None, st5) \<Rightarrow> map_option (Pair None) (InnerBag_Free pRet st5)
                | (Some aWeightsInternal, st5) \<Rightarrow>
                    let bag2 = bag1\<lparr>m_aWeights := Some aWeightsInternal\<rparr>;
                        st6 = store pRet (Bag bag2) st5;
                        st7 = store aCountOccurrences (SizeArr (replicate cSamples 0)) st6
                    in
                    (case sampling_loop env cSamples 0 (rng st7) (replicate cSamples 0) of
                       None \<Rightarrow> None
                     | Some (counts, cpuRng) \<Rightarrow>
                         let st8 = (store aCountOccurrences (SizeArr counts) st7)\<lparr>rng := cpuRng\<rparr> in
                         (case aWeights of
                            None \<Rightarrow>
                              let weights = map (\<lambda>iSample. size_to_FloatFast env (counts ! iSample))
                                              [0..<cSamples];
                                  st9 = store aWeightsInternal (FloatArr weights) st8;
                                  weightTotal = size_to_FloatBig env cSamples
                              in Some (Some pRet,
                                       store pRet (Bag (bag2\<lparr>m_weightTotal := Some weightTotal\<rparr>)) st9)
                          | Some aW \<Rightarrow>
                              if length aW < cSamples then None
                              else
                                let weights =
                                      map (\<lambda>iSample. FloatFast_mul env
                                             (size_to_FloatFast env (counts ! iSample)) (aW ! iSample))
                                        [0..<cSamples];
                                    st9 = store aWeightsInternal (FloatArr weights) st8;
                                    weightTotal = AddPositiveFloatsSafeBig env cSamples weights
                                in
                                if invalid_total weightTotal
                                then map_option (Pair None) (InnerBag_Free pRet st9)
                                else Some (Some pRet,
                                       store pRet (Bag (bag2\<lparr>m_weightTotal := Some weightTotal\<rparr>)) st9))))))"

section \<open>Flat bag\<close>

text \<open>\<^verbatim>\<open>InnerBag::GenerateFlatInnerBag\<close> (lines 101 to 161). With external weights the
  total is computed and checked on the caller's array before anything is written.\<close>

definition GenerateFlatInnerBag ::
  "'r env \<Rightarrow> nat \<Rightarrow> fl list option \<Rightarrow> 'r state \<Rightarrow> (addr option \<times> 'r state) option" where
  "GenerateFlatInnerBag env cSamples aWeights st0 =
     (case EbmMalloc env 1 st0 of
        (None, st1) \<Rightarrow> Some (None, st1)
      | (Some pRet, st1) \<Rightarrow>
          let st2 = InitializeUnfailing pRet st1 in
          (case EbmMalloc env cSamples st2 of
             (None, st3) \<Rightarrow> map_option (Pair None) (InnerBag_Free pRet st3)
           | (Some aCountOccurrences, st3) \<Rightarrow>
               let bag1 = \<lparr>m_aCountOccurrences = Some aCountOccurrences, m_aWeights = None,
                            m_weightTotal = None\<rparr>;
                   st4 = store pRet (Bag bag1) st3
               in
               (case EbmMalloc env cSamples st4 of
                  (None, st5) \<Rightarrow> map_option (Pair None) (InnerBag_Free pRet st5)
                | (Some aWeightsInternal, st5) \<Rightarrow>
                    let bag2 = bag1\<lparr>m_aWeights := Some aWeightsInternal\<rparr>;
                        st6 = store pRet (Bag bag2) st5
                    in
                    (case aWeights of
                       None \<Rightarrow>
                         let st7 = store aCountOccurrences
                                     (SizeArr (map (\<lambda>iSample. 1) [0..<cSamples])) st6;
                             st8 = store aWeightsInternal
                                     (FloatArr (map (\<lambda>iSample. Finite 1) [0..<cSamples])) st7;
                             weightTotal = size_to_FloatBig env cSamples
                         in Some (Some pRet,
                                  store pRet (Bag (bag2\<lparr>m_weightTotal := Some weightTotal\<rparr>)) st8)
                     | Some aW \<Rightarrow>
                         if length aW < cSamples then None
                         else
                           let weightTotal = AddPositiveFloatsSafeBig env cSamples (take cSamples aW) in
                           if invalid_total weightTotal
                           then map_option (Pair None) (InnerBag_Free pRet st6)
                           else
                             let st7 = store aWeightsInternal (FloatArr (take cSamples aW)) st6;
                                 st8 = store aCountOccurrences
                                         (SizeArr (map (\<lambda>iSample. 1) [0..<cSamples])) st7
                             in Some (Some pRet,
                                      store pRet (Bag (bag2\<lparr>m_weightTotal := Some weightTotal\<rparr>)) st8)))))"

section \<open>The set of bags\<close>

text \<open>
  \<^verbatim>\<open>InnerBag::FreeInnerBags\<close> (lines 176 to 191) and \<^verbatim>\<open>InnerBag::GenerateInnerBags\<close>
  (lines 194 to 240). Both loops are \<^verbatim>\<open>do ... while\<close> loops that stop when the counter
  equals the bound.

  The release loop reads the slot sequence through the caller's pointer at every
  iteration. Reading past its end, or through a pointer to a block that is no longer a
  live slot sequence, is undefined behaviour (\<open>None\<close>).
\<close>

function FreeInnerBags_loop :: "nat \<Rightarrow> addr \<Rightarrow> nat \<Rightarrow> 'r state \<Rightarrow> 'r state option" where
  "FreeInnerBags_loop cInnerBagsAfterZero apInnerBags iInnerBag st =
     (case heap st apInnerBags of
        Some (PtrArr slots) \<Rightarrow>
          if iInnerBag < length slots then
            (case (case slots ! iInnerBag of
                     None \<Rightarrow> Some st
                   | Some pInnerBag \<Rightarrow> InnerBag_Free pInnerBag st) of
               None \<Rightarrow> None
             | Some st' \<Rightarrow>
                 if cInnerBagsAfterZero \<noteq> iInnerBag + 1
                 then FreeInnerBags_loop cInnerBagsAfterZero apInnerBags (iInnerBag + 1) st'
                 else Some st')
          else None
      | _ \<Rightarrow> None)"
  by pat_completeness auto
termination
proof (relation "measure (\<lambda>(c, ap, i, st).
         (case heap st ap of Some (PtrArr slots) \<Rightarrow> length slots - i | _ \<Rightarrow> 0))")
  show "wf (measure (\<lambda>(c, ap, i, st).
         (case heap st ap of Some (PtrArr slots) \<Rightarrow> length slots - i | _ \<Rightarrow> 0)))"
    by simp
next
  fix cInnerBagsAfterZero :: nat and apInnerBags :: addr and iInnerBag :: nat
    and st :: "'r state" and x2 x5 x2a
  assume h: "heap st apInnerBags = Some x2" "x2 = PtrArr x5" "iInnerBag < length x5"
    and f: "(case x5 ! iInnerBag of None \<Rightarrow> Some st | Some pInnerBag \<Rightarrow> InnerBag_Free pInnerBag st)
              = Some x2a"
  have only_frees: "heap x2a apInnerBags = heap st apInnerBags \<or> heap x2a apInnerBags = None"
    using f
    by (auto simp: InnerBag_Free_def free_def
             split: option.splits obj.splits if_splits)
  show "((cInnerBagsAfterZero, apInnerBags, iInnerBag + 1, x2a),
         (cInnerBagsAfterZero, apInnerBags, iInnerBag, st))
        \<in> measure (\<lambda>(c, ap, i, st).
             (case heap st ap of Some (PtrArr slots) \<Rightarrow> length slots - i | _ \<Rightarrow> 0))"
    using only_frees h by auto
qed

declare FreeInnerBags_loop.simps [simp del]

definition FreeInnerBags :: "nat \<Rightarrow> addr option \<Rightarrow> 'r state \<Rightarrow> 'r state option" where
  "FreeInnerBags cInnerBags apInnerBags st =
     (case apInnerBags of
        None \<Rightarrow> Some st
      | Some ap \<Rightarrow>
          let cInnerBagsAfterZero = (if 0 = cInnerBags then 1 else cInnerBags) in
          (case FreeInnerBags_loop cInnerBagsAfterZero ap 0 st of
             None \<Rightarrow> None
           | Some st' \<Rightarrow> free (Some ap) st'))"

text \<open>
  The construction loop fills the slot sequence it has just allocated; \<open>slots\<close> is its
  contents, written back at every assignment. A write past its end is undefined
  behaviour (\<open>None\<close>).
\<close>

function GenerateInnerBags_loop ::
  "'r env \<Rightarrow> nat \<Rightarrow> fl list option \<Rightarrow> nat \<Rightarrow> addr \<Rightarrow> addr option list \<Rightarrow> nat \<Rightarrow> 'r state
     \<Rightarrow> (addr option \<times> 'r state) option" where
  "GenerateInnerBags_loop env cSamples aWeights cInnerBags apInnerBags slots iInnerBag st =
     (case GenerateSingleInnerBag env cSamples aWeights st of
        None \<Rightarrow> None
      | Some (None, st1) \<Rightarrow>
          map_option (Pair None) (FreeInnerBags cInnerBags (Some apInnerBags) st1)
      | Some (Some pSingleInnerBag, st1) \<Rightarrow>
          if iInnerBag < length slots then
            let slots' = slots[iInnerBag := Some pSingleInnerBag];
                st2 = store apInnerBags (PtrArr slots') st1
            in
            if cInnerBags \<noteq> iInnerBag + 1
            then GenerateInnerBags_loop env cSamples aWeights cInnerBags apInnerBags slots'
                   (iInnerBag + 1) st2
            else Some (Some apInnerBags, st2)
          else None)"
  by pat_completeness auto
termination
  by (relation "measure (\<lambda>(env, cSamples, aWeights, c, ap, slots, i, st). length slots - i)") auto

declare GenerateInnerBags_loop.simps [simp del]

definition GenerateInnerBags ::
  "'r env \<Rightarrow> nat \<Rightarrow> fl list option \<Rightarrow> nat \<Rightarrow> 'r state \<Rightarrow> (addr option \<times> 'r state) option" where
  "GenerateInnerBags env cSamples aWeights cInnerBags st0 =
     (let cInnerBagsAfterZero = (if 0 = cInnerBags then 1 else cInnerBags) in
      case EbmMalloc env cInnerBagsAfterZero st0 of
        (None, st1) \<Rightarrow> Some (None, st1)
      | (Some apInnerBags, st1) \<Rightarrow>
          let slots = replicate cInnerBagsAfterZero None;
              st2 = store apInnerBags (PtrArr slots) st1
          in
          if 0 = cInnerBags then
            (case GenerateFlatInnerBag env cSamples aWeights st2 of
               None \<Rightarrow> None
             | Some (None, st3) \<Rightarrow> map_option (Pair None) (free (Some apInnerBags) st3)
             | Some (Some pSingleInnerBag, st3) \<Rightarrow>
                 Some (Some apInnerBags,
                       store apInnerBags (PtrArr (slots[0 := Some pSingleInnerBag])) st3))
          else GenerateInnerBags_loop env cSamples aWeights cInnerBags apInnerBags slots 0 st2)"

section \<open>Reading a bag\<close>

definition read_bag :: "'r state \<Rightarrow> addr \<Rightarrow> (nat list \<times> fl list \<times> fl) option" where
  \<comment> \<open>The occurrence counts, the weights and the total of the bag at an address, when
      the bag and both of its arrays are live and the total is assigned.\<close>
  "read_bag st p =
     (case heap st p of
        Some (Bag b) \<Rightarrow>
          (case (m_aCountOccurrences b, m_aWeights b, m_weightTotal b) of
             (Some c, Some w, Some t) \<Rightarrow>
               (case (heap st c, heap st w) of
                  (Some (SizeArr counts), Some (FloatArr weights)) \<Rightarrow> Some (counts, weights, t)
                | _ \<Rightarrow> None)
           | _ \<Rightarrow> None)
      | _ \<Rightarrow> None)"

section \<open>A concrete environment\<close>

text \<open>
  Arithmetic on the values above without rounding, a generator that replays a list of
  draws, and an allocator that refuses the requests whose numbers are listed.
\<close>

fun fl_add :: "fl \<Rightarrow> fl \<Rightarrow> fl" where
  "fl_add (Finite a) (Finite b) = Finite (a + b)"
| "fl_add NaN _ = NaN"
| "fl_add _ NaN = NaN"
| "fl_add PosInf NegInf = NaN"
| "fl_add NegInf PosInf = NaN"
| "fl_add PosInf _ = PosInf"
| "fl_add _ PosInf = PosInf"
| "fl_add NegInf _ = NegInf"
| "fl_add _ NegInf = NegInf"

fun fl_mul :: "fl \<Rightarrow> fl \<Rightarrow> fl" where
  "fl_mul (Finite a) (Finite b) = Finite (a * b)"
| "fl_mul NaN _ = NaN"
| "fl_mul _ NaN = NaN"
| "fl_mul (Finite a) PosInf = (if a = 0 then NaN else if 0 < a then PosInf else NegInf)"
| "fl_mul (Finite a) NegInf = (if a = 0 then NaN else if 0 < a then NegInf else PosInf)"
| "fl_mul PosInf (Finite b) = (if b = 0 then NaN else if 0 < b then PosInf else NegInf)"
| "fl_mul NegInf (Finite b) = (if b = 0 then NaN else if 0 < b then NegInf else PosInf)"
| "fl_mul PosInf PosInf = PosInf"
| "fl_mul NegInf NegInf = PosInf"
| "fl_mul PosInf NegInf = NegInf"
| "fl_mul NegInf PosInf = NegInf"

definition exact_sum :: "nat \<Rightarrow> fl list \<Rightarrow> fl" where
  \<comment> \<open>Modelled from the spec: \<^verbatim>\<open>AddPositiveFloatsSafeBig\<close> (declared in
      \<^verbatim>\<open>ebm_internal.hpp\<close>, not among the sources) as the sum of the first \<open>cVals\<close>
      values, non-finite when an input is.\<close>
  "exact_sum cVals pVals = foldl fl_add (Finite 0) (take cVals pVals)"

definition replay_NextFast :: "nat list \<Rightarrow> nat \<Rightarrow> nat \<times> nat list" where
  \<comment> \<open>Modelled from the spec: a generator returning an index in \<open>[0, n)\<close>; this one
      replays the listed draws (reduced below the bound), then returns 0.\<close>
  "replay_NextFast r n = (case r of [] \<Rightarrow> (0, []) | x # xs \<Rightarrow> (x mod n, xs))"

definition exact_env :: "nat list \<Rightarrow> nat list env" where
  "exact_env refused =
     \<lparr>NextFast = replay_NextFast,
      AddPositiveFloatsSafeBig = exact_sum,
      size_to_FloatFast = (\<lambda>n. Finite (real n)),
      size_to_FloatBig = (\<lambda>n. Finite (real n)),
      FloatFast_mul = fl_mul,
      EbmMalloc_ok = (\<lambda>k n. k \<notin> set refused),
      SIZE_MAX = 2 ^ 64 - 1\<rparr>"

definition init_state :: "'r \<Rightarrow> 'r state" where
  "init_state r = \<lparr>heap = (\<lambda>a. None), brk = 0, rng = r\<rparr>"

text \<open>
  The same environment with a summation that overflows: a sum above the largest finite
  value \<open>M\<close> of the type is \<open>+\<infinity>\<close>.
\<close>

definition overflowing_sum :: "real \<Rightarrow> nat \<Rightarrow> fl list \<Rightarrow> fl" where
  \<comment> \<open>Modelled from the spec: \<^verbatim>\<open>AddPositiveFloatsSafeBig\<close> (declared in
      \<^verbatim>\<open>ebm_internal.hpp\<close>, not among the sources) returning a non-finite result when
      the sum is not finitely representable.\<close>
  "overflowing_sum M cVals pVals =
     (case exact_sum cVals pVals of
        Finite r \<Rightarrow> if M < r then PosInf else Finite r
      | x \<Rightarrow> x)"

definition overflowing_env :: "real \<Rightarrow> nat list env" where
  "overflowing_env M = (exact_env [])\<lparr>AddPositiveFloatsSafeBig := overflowing_sum M\<rparr>"

section \<open>Notions used in the statements\<close>

text \<open>The allocator has handed out no block at or above the next address.\<close>

definition heap_wf :: "'r state \<Rightarrow> bool" where
  "heap_wf st = (\<forall>a. brk st \<le> a \<longrightarrow> heap st a = None)"

text \<open>The contract of \<^verbatim>\<open>NextFast\<close>: the drawn index is below the bound.\<close>

definition rng_in_range :: "'r env \<Rightarrow> nat \<Rightarrow> bool" where
  "rng_in_range env n = (\<forall>r. fst (NextFast env r n) < n)"

text \<open>The state of the generator after \<open>k\<close> draws with bound \<open>n\<close>.\<close>

fun draws :: "'r env \<Rightarrow> nat \<Rightarrow> nat \<Rightarrow> 'r \<Rightarrow> 'r" where
  "draws env n 0 r = r"
| "draws env n (Suc k) r = draws env n k (snd (NextFast env r n))"

text \<open>The three allocations of a factory call that starts in \<open>st\<close> succeed: the bag,
  the occurrence counts, the weights.\<close>

definition allocations_succeed :: "'r env \<Rightarrow> nat \<Rightarrow> 'r state \<Rightarrow> bool" where
  "allocations_succeed env cSamples st =
     (EbmMalloc_ok env (brk st) 1 \<and> EbmMalloc_ok env (brk st + 1) cSamples \<and>
      EbmMalloc_ok env (brk st + 2) cSamples)"

text \<open>The weights the bootstrap construction computes from the counts and the external
  weights (lines 79 to 83).\<close>

definition effective_weights :: "'r env \<Rightarrow> nat \<Rightarrow> nat list \<Rightarrow> fl list \<Rightarrow> fl list" where
  "effective_weights env cSamples counts aW =
     map (\<lambda>i. FloatFast_mul env (size_to_FloatFast env (counts ! i)) (aW ! i)) [0..<cSamples]"

text \<open>The conversion of a \<^verbatim>\<open>size_t\<close> that is at least 1 to \<^verbatim>\<open>FloatBig\<close> is a finite positive
  number, as it is for IEEE single and double precision and a 64-bit \<^verbatim>\<open>size_t\<close>.\<close>

definition size_conversion_ok :: "'r env \<Rightarrow> bool" where
  "size_conversion_ok env =
     (\<forall>n. 1 \<le> n \<and> n \<le> SIZE_MAX env \<longrightarrow> (\<exists>r. 0 < r \<and> size_to_FloatBig env n = Finite r))"

text \<open>What a flat bag holds: it depends on \<open>cSamples\<close> and the external weights only.\<close>

definition flat_contents :: "'r env \<Rightarrow> nat \<Rightarrow> fl list option \<Rightarrow> nat list \<times> fl list \<times> fl" where
  "flat_contents env n aWeights =
     (replicate n 1,
      (case aWeights of None \<Rightarrow> replicate n (Finite 1) | Some aW \<Rightarrow> take n aW),
      (case aWeights of None \<Rightarrow> size_to_FloatBig env n
       | Some aW \<Rightarrow> AddPositiveFloatsSafeBig env n (take n aW)))"

text \<open>
  The release the specification describes, in its words: an absent slot sequence is
  tolerated; otherwise the first \<open>max requestedBagCount 1\<close> slots are scanned, a null
  slot is skipped, the bag of any other slot is released, and at the end the slot
  sequence is released.
\<close>

fun free_slots :: "addr option list \<Rightarrow> 'r state \<Rightarrow> 'r state option" where
  "free_slots [] st = Some st"
| "free_slots (None # slots) st = free_slots slots st"
| "free_slots (Some pInnerBag # slots) st =
     (case InnerBag_Free pInnerBag st of
        None \<Rightarrow> None
      | Some st' \<Rightarrow> free_slots slots st')"

definition release :: "nat \<Rightarrow> addr option \<Rightarrow> 'r state \<Rightarrow> 'r state option" where
  "release requestedBagCount slotSequence st =
     (case slotSequence of
        None \<Rightarrow> Some st
      | Some ap \<Rightarrow>
          (case heap st ap of
             Some (PtrArr slots) \<Rightarrow>
               if length slots < max requestedBagCount 1 then None
               else (case free_slots (take (max requestedBagCount 1) slots) st of
                       None \<Rightarrow> None
                     | Some st' \<Rightarrow> free (Some ap) st')
           | _ \<Rightarrow> None))"

text \<open>
  The blocks a bag owns (itself and its arrays), the blocks the bags of a slot sequence
  own, a bag that is live with live arrays, and the state after the release of a list
  of blocks.
\<close>

definition cells :: "(addr \<Rightarrow> obj option) \<Rightarrow> addr \<Rightarrow> addr list" where
  "cells h b =
     (case h b of
        Some (Bag x) \<Rightarrow>
          b # (case m_aCountOccurrences x of None \<Rightarrow> [] | Some c \<Rightarrow> [c])
            @ (case m_aWeights x of None \<Rightarrow> [] | Some w \<Rightarrow> [w])
      | _ \<Rightarrow> [])"

definition slot_cells :: "(addr \<Rightarrow> obj option) \<Rightarrow> addr option list \<Rightarrow> addr list" where
  "slot_cells h slots = concat (map (\<lambda>s. case s of None \<Rightarrow> [] | Some b \<Rightarrow> cells h b) slots)"

definition bag_live :: "(addr \<Rightarrow> obj option) \<Rightarrow> addr \<Rightarrow> bool" where
  "bag_live h b = ((\<exists>x. h b = Some (Bag x)) \<and> list_all (\<lambda>a. h a \<noteq> None) (cells h b))"

definition release_heap :: "addr list \<Rightarrow> 'r state \<Rightarrow> 'r state" where
  "release_heap as st = st\<lparr>heap := (\<lambda>a. if a \<in> set as then None else heap st a)\<rparr>"

text \<open>
  A bag built for \<open>n\<close> samples, the blocks of a list of bags, and the invariant of the
  construction loop: above the address \<open>B\<close> the live blocks are the slot sequence and
  the blocks of the bags built so far, all distinct.
\<close>

definition full_bag :: "(addr \<Rightarrow> obj option) \<Rightarrow> nat \<Rightarrow> addr \<Rightarrow> bool" where
  "full_bag h n b =
     (\<exists>c w t counts ws.
        h b = Some (Bag \<lparr>m_aCountOccurrences = Some c, m_aWeights = Some w, m_weightTotal = Some t\<rparr>) \<and>
        h c = Some (SizeArr counts) \<and> h w = Some (FloatArr ws) \<and>
        length counts = n \<and> length ws = n)"

definition owned :: "(addr \<Rightarrow> obj option) \<Rightarrow> addr list \<Rightarrow> addr list" where
  "owned h bs = concat (map (cells h) bs)"

definition set_inv :: "nat \<Rightarrow> nat \<Rightarrow> addr \<Rightarrow> addr list \<Rightarrow> 'r state \<Rightarrow> bool" where
  "set_inv n B ap bs st =
     (heap_wf st \<and> B \<le> ap \<and> list_all (full_bag (heap st) n) bs \<and>
      distinct (ap # owned (heap st) bs) \<and>
      {a. B \<le> a \<and> heap st a \<noteq> None} = set (ap # owned (heap st) bs))"

text \<open>
  What the bootstrap construction stores in a bag when it starts with the generator in
  state \<open>r\<close> (lines 56 to 84): the counts the sampling loop leaves, the weights computed
  from them, and the total.
\<close>

definition bootstrap_contents ::
  "'r env \<Rightarrow> nat \<Rightarrow> fl list option \<Rightarrow> 'r \<Rightarrow> (nat list \<times> fl list \<times> fl) option" where
  "bootstrap_contents env cSamples aWeights r =
     (case sampling_loop env cSamples 0 r (replicate cSamples 0) of
        None \<Rightarrow> None
      | Some (counts, r') \<Rightarrow>
          (case aWeights of
             None \<Rightarrow> Some (counts, map (size_to_FloatFast env) counts, size_to_FloatBig env cSamples)
           | Some aW \<Rightarrow>
               Some (counts, effective_weights env cSamples counts aW,
                     AddPositiveFloatsSafeBig env cSamples
                       (effective_weights env cSamples counts aW))))"

text \<open>
  The construction of a bootstrap bag that starts at the allocator's address \<open>b\<close> with
  the generator in state \<open>r\<close> fails: one of its three allocations is refused (lines 32,
  41, 49), or external weights are given and their total is invalid (line 85).
\<close>

definition bag_fails :: "'r env \<Rightarrow> nat \<Rightarrow> fl list option \<Rightarrow> addr \<Rightarrow> 'r \<Rightarrow> bool" where
  "bag_fails env cSamples aWeights b r =
     (\<not> (EbmMalloc_ok env b 1 \<and> EbmMalloc_ok env (b + 1) cSamples \<and>
         EbmMalloc_ok env (b + 2) cSamples) \<or>
      (case aWeights of
         None \<Rightarrow> False
       | Some aW \<Rightarrow>
           (case bootstrap_contents env cSamples aWeights r of
              None \<Rightarrow> False
            | Some (counts, weights, t) \<Rightarrow> invalid_total t)))"

text \<open>
  Properties of floating-point arithmetic that hold with rounding and overflow. A value
  is not negative when it is a finite number that is at least 0, or \<open>+\<infinity>\<close>. The
  summation is sound when the sum of zeros is 0 and the sum of values that are not
  negative, one of them greater than 0, is greater than 0 (possibly \<open>+\<infinity>\<close>). The
  product is sound when the product of a converted count and a finite weight that is
  not negative is 0 if one of the two is 0, and greater than 0 (possibly \<open>+\<infinity>\<close>)
  otherwise.
\<close>

definition nonneg :: "fl \<Rightarrow> bool" where
  "nonneg x = (case x of Finite r \<Rightarrow> 0 \<le> r | PosInf \<Rightarrow> True | _ \<Rightarrow> False)"

definition sum_sound :: "'r env \<Rightarrow> bool" where
  "sum_sound env =
     (\<forall>n ws. n \<le> length ws \<longrightarrow>
        (list_all (\<lambda>w. w = Finite 0) (take n ws) \<longrightarrow>
           AddPositiveFloatsSafeBig env n ws = Finite 0) \<and>
        (list_all nonneg (take n ws) \<and> list_ex gt_zero (take n ws) \<longrightarrow>
           gt_zero (AddPositiveFloatsSafeBig env n ws)))"

definition product_sound :: "'r env \<Rightarrow> bool" where
  "product_sound env =
     (\<forall>c w. c \<le> SIZE_MAX env \<and> 0 \<le> w \<longrightarrow>
        (if c = 0 \<or> w = 0
         then FloatFast_mul env (size_to_FloatFast env c) (Finite w) = Finite 0
         else gt_zero (FloatFast_mul env (size_to_FloatFast env c) (Finite w))))"

text \<open>A state with a slot sequence of two bags; the second bag has no weights yet.\<close>

definition demo_state :: "unit state" where
  "demo_state =
     \<lparr>heap = [0 \<mapsto> PtrArr [Some 1, Some 4],
              1 \<mapsto> Bag \<lparr>m_aCountOccurrences = Some 2, m_aWeights = Some 3,
                          m_weightTotal = Some (Finite 1)\<rparr>,
              2 \<mapsto> SizeArr [1], 3 \<mapsto> FloatArr [Finite 1],
              4 \<mapsto> Bag \<lparr>m_aCountOccurrences = Some 5, m_aWeights = None, m_weightTotal = None\<rparr>,
              5 \<mapsto> SizeArr [7]],
      brk = 6, rng = ()\<rparr>"

section \<open>The sampling loop\<close>

lemma sampling_loop_length:
  "sampling_loop env cSamples iSample r a = Some (a', r') \<Longrightarrow> length a' = length a"
proof (induction env cSamples iSample r a rule: sampling_loop.induct)
  case (1 env cSamples iSample cpuRng a)
  show ?case
  proof (cases "iSample < cSamples")
    case True
    obtain i r1 where nf: "NextFast env cpuRng cSamples = (i, r1)" by (cases "NextFast env cpuRng cSamples")
    from "1.prems" True nf have lt: "i < length a"
      by (simp add: sampling_loop.simps [of env cSamples iSample] split: if_splits)
    from "1.prems" True nf lt
    have "sampling_loop env cSamples (iSample + 1) r1
            (a[i := (a ! i + 1) mod (SIZE_MAX env + 1)]) = Some (a', r')"
      by (simp add: sampling_loop.simps [of env cSamples iSample])
    from "1.IH" [OF True nf [symmetric] lt this] show ?thesis by simp
  next
    case False
    with "1.prems" show ?thesis by (simp add: sampling_loop.simps [of env cSamples iSample])
  qed
qed

lemma elem_le_sum_list_nat: "i < length (a::nat list) \<Longrightarrow> a ! i \<le> sum_list a"
  by (simp add: member_le_sum_list)

lemma sampling_loop_sum:
  "sampling_loop env cSamples iSample r a = Some (a', r') \<Longrightarrow>
   sum_list a + (cSamples - iSample) \<le> SIZE_MAX env \<Longrightarrow>
   sum_list a' = sum_list a + (cSamples - iSample)"
proof (induction env cSamples iSample r a rule: sampling_loop.induct)
  case (1 env cSamples iSample cpuRng a)
  show ?case
  proof (cases "iSample < cSamples")
    case True
    obtain i r1 where nf: "NextFast env cpuRng cSamples = (i, r1)" by (cases "NextFast env cpuRng cSamples")
    from "1.prems"(1) True nf have lt: "i < length a"
      by (simp add: sampling_loop.simps [of env cSamples iSample] split: if_splits)
    have "a ! i \<le> sum_list a" using lt by (rule elem_le_sum_list_nat)
    with "1.prems"(2) True have "a ! i + 1 \<le> SIZE_MAX env" by linarith
    then have nowrap: "(a ! i + 1) mod (SIZE_MAX env + 1) = a ! i + 1" by simp
    let ?a1 = "a[i := (a ! i + 1) mod (SIZE_MAX env + 1)]"
    from "1.prems"(1) True nf lt
    have rec: "sampling_loop env cSamples (iSample + 1) r1 ?a1 = Some (a', r')"
      by (simp add: sampling_loop.simps [of env cSamples iSample])
    have s1: "sum_list ?a1 = sum_list a + 1"
      using lt nowrap by (simp add: sum_list_update)
    have "sum_list ?a1 + (cSamples - (iSample + 1)) \<le> SIZE_MAX env"
      using s1 "1.prems"(2) True by linarith
    from "1.IH" [OF True nf [symmetric] lt rec this] s1 True show ?thesis by linarith
  next
    case False
    with "1.prems" show ?thesis by (simp add: sampling_loop.simps [of env cSamples iSample])
  qed
qed

lemma sampling_loop_rng:
  "sampling_loop env cSamples iSample r a = Some (a', r') \<Longrightarrow>
   r' = draws env cSamples (cSamples - iSample) r"
proof (induction env cSamples iSample r a rule: sampling_loop.induct)
  case (1 env cSamples iSample cpuRng a)
  show ?case
  proof (cases "iSample < cSamples")
    case True
    obtain i r1 where nf: "NextFast env cpuRng cSamples = (i, r1)" by (cases "NextFast env cpuRng cSamples")
    from "1.prems"(1) True nf have lt: "i < length a"
      by (simp add: sampling_loop.simps [of env cSamples iSample] split: if_splits)
    from "1.prems"(1) True nf lt
    have rec: "sampling_loop env cSamples (iSample + 1) r1
                 (a[i := (a ! i + 1) mod (SIZE_MAX env + 1)]) = Some (a', r')"
      by (simp add: sampling_loop.simps [of env cSamples iSample])
    have d: "cSamples - iSample = Suc (cSamples - (iSample + 1))" using True by simp
    from "1.IH" [OF True nf [symmetric] lt rec]
    show ?thesis unfolding d using nf by simp
  next
    case False
    with "1.prems" show ?thesis
      by (simp add: sampling_loop.simps [of env cSamples iSample])
  qed
qed

lemma sampling_loop_defined:
  "rng_in_range env cSamples \<Longrightarrow> length a = cSamples \<Longrightarrow>
   \<exists>a' r'. sampling_loop env cSamples iSample r a = Some (a', r')"
proof (induction env cSamples iSample r a rule: sampling_loop.induct)
  case (1 env cSamples iSample cpuRng a)
  show ?case
  proof (cases "iSample < cSamples")
    case True
    obtain i r1 where nf: "NextFast env cpuRng cSamples = (i, r1)" by (cases "NextFast env cpuRng cSamples")
    from "1.prems" nf have lt: "i < length a"
      unfolding rng_in_range_def by (metis fst_conv)
    have "\<exists>a' r'. sampling_loop env cSamples (iSample + 1) r1
            (a[i := (a ! i + 1) mod (SIZE_MAX env + 1)]) = Some (a', r')"
      using "1.IH" [OF True nf [symmetric] lt "1.prems"(1)] "1.prems"(2) by simp
    then show ?thesis
      using True nf lt by (simp add: sampling_loop.simps [of env cSamples iSample])
  next
    case False
    then show ?thesis by (simp add: sampling_loop.simps [of env cSamples iSample])
  qed
qed

lemma sampling_loop_cong_env:
  "NextFast env1 = NextFast env2 \<Longrightarrow> SIZE_MAX env1 = SIZE_MAX env2 \<Longrightarrow>
   sampling_loop env1 cSamples iSample r a = sampling_loop env2 cSamples iSample r a"
proof (induction env1 cSamples iSample r a rule: sampling_loop.induct)
  case (1 env cSamples iSample cpuRng a)
  show ?case
  proof (cases "iSample < cSamples")
    case True
    obtain i r1 where nf: "NextFast env cpuRng cSamples = (i, r1)" by (cases "NextFast env cpuRng cSamples")
    show ?thesis
    proof (cases "i < length a")
      case lt: True
      from "1.IH" [OF True nf [symmetric] lt "1.prems"] True nf lt "1.prems"
      show ?thesis
        by (simp add: sampling_loop.simps [of env cSamples iSample]
                      sampling_loop.simps [of env2 cSamples iSample])
    next
      case False
      with True nf "1.prems" show ?thesis
        by (simp add: sampling_loop.simps [of env cSamples iSample]
                      sampling_loop.simps [of env2 cSamples iSample])
    qed
  next
    case False
    then show ?thesis
      by (simp add: sampling_loop.simps [of env cSamples iSample]
                    sampling_loop.simps [of env2 cSamples iSample])
  qed
qed

section \<open>The two factories\<close>

lemmas factory_defs = EbmMalloc_def InitializeUnfailing_def store_def
        InnerBag_Free_def free_def Let_def

lemma GenerateFlatInnerBag_Some:
  assumes "GenerateFlatInnerBag env cSamples aWeights st = Some (Some p, st')"
  shows "p = brk st \<and> brk st' = brk st + 3 \<and> rng st' = rng st \<and>
         EbmMalloc_ok env (brk st) 1 \<and> EbmMalloc_ok env (brk st + 1) cSamples \<and>
         EbmMalloc_ok env (brk st + 2) cSamples \<and>
         (\<exists>ws t. heap st' = (heap st)(brk st \<mapsto> Bag \<lparr>m_aCountOccurrences = Some (brk st + 1),
                       m_aWeights = Some (brk st + 2), m_weightTotal = Some t\<rparr>,
                     brk st + 1 \<mapsto> SizeArr (replicate cSamples 1),
                     brk st + 2 \<mapsto> FloatArr ws) \<and>
            (case aWeights of
               None \<Rightarrow> ws = replicate cSamples (Finite 1) \<and> t = size_to_FloatBig env cSamples
             | Some aW \<Rightarrow> cSamples \<le> length aW \<and> ws = take cSamples aW \<and>
                           t = AddPositiveFloatsSafeBig env cSamples (take cSamples aW) \<and>
                           \<not> invalid_total t))"
  using assms
  by (auto simp: GenerateFlatInnerBag_def factory_defs map_replicate_const fun_upd_twist
        split: if_splits option.splits prod.splits)

lemma GenerateFlatInnerBag_None:
  assumes "GenerateFlatInnerBag env cSamples aWeights st = Some (None, st')" "heap_wf st"
  shows "heap st' = heap st \<and> brk st < brk st' \<and> rng st' = rng st"
  using assms
  by (auto simp: GenerateFlatInnerBag_def factory_defs heap_wf_def fun_upd_idem
        split: if_splits option.splits prod.splits)

lemma GenerateFlatInnerBag_None_invalid:
  assumes "GenerateFlatInnerBag env cSamples aWeights st = Some (None, st')"
    and "EbmMalloc_ok env (brk st) 1" "EbmMalloc_ok env (brk st + 1) cSamples"
        "EbmMalloc_ok env (brk st + 2) cSamples"
  shows "\<exists>aW. aWeights = Some aW \<and> cSamples \<le> length aW \<and>
           invalid_total (AddPositiveFloatsSafeBig env cSamples (take cSamples aW))"
  using assms
  by (auto simp: GenerateFlatInnerBag_def factory_defs
        split: if_splits option.splits prod.splits)

lemma GenerateFlatInnerBag_defined:
  assumes "\<And>aW. aWeights = Some aW \<Longrightarrow> cSamples \<le> length aW"
  shows "\<exists>r st'. GenerateFlatInnerBag env cSamples aWeights st = Some (r, st')"
  using assms
  by (auto simp: GenerateFlatInnerBag_def factory_defs
        split: if_splits option.splits prod.splits)

lemma GenerateSingleInnerBag_Some:
  assumes "GenerateSingleInnerBag env cSamples aWeights st = Some (Some p, st')"
  shows "p = brk st \<and> brk st' = brk st + 3 \<and>
         EbmMalloc_ok env (brk st) 1 \<and> EbmMalloc_ok env (brk st + 1) cSamples \<and>
         EbmMalloc_ok env (brk st + 2) cSamples \<and>
         (\<exists>counts ws t.
            sampling_loop env cSamples 0 (rng st) (replicate cSamples 0) = Some (counts, rng st') \<and>
            heap st' = (heap st)(brk st \<mapsto> Bag \<lparr>m_aCountOccurrences = Some (brk st + 1),
                       m_aWeights = Some (brk st + 2), m_weightTotal = Some t\<rparr>,
                     brk st + 1 \<mapsto> SizeArr counts,
                     brk st + 2 \<mapsto> FloatArr ws) \<and>
            (case aWeights of
               None \<Rightarrow> ws = map (\<lambda>i. size_to_FloatFast env (counts ! i)) [0..<cSamples] \<and>
                        t = size_to_FloatBig env cSamples
             | Some aW \<Rightarrow> cSamples \<le> length aW \<and>
                  ws = map (\<lambda>i. FloatFast_mul env (size_to_FloatFast env (counts ! i)) (aW ! i))
                         [0..<cSamples] \<and>
                  t = AddPositiveFloatsSafeBig env cSamples ws \<and> \<not> invalid_total t))"
  using assms
  by (auto simp: GenerateSingleInnerBag_def factory_defs fun_upd_twist
        split: if_splits option.splits prod.splits)

lemma GenerateSingleInnerBag_None:
  assumes "GenerateSingleInnerBag env cSamples aWeights st = Some (None, st')" "heap_wf st"
  shows "heap st' = heap st \<and> brk st < brk st' \<and> brk st' \<le> brk st + 3"
  using assms
  by (auto simp: GenerateSingleInnerBag_def factory_defs heap_wf_def fun_upd_idem
        split: if_splits option.splits prod.splits)

lemma GenerateSingleInnerBag_None_invalid:
  assumes "GenerateSingleInnerBag env cSamples aWeights st = Some (None, st')"
    and "EbmMalloc_ok env (brk st) 1" "EbmMalloc_ok env (brk st + 1) cSamples"
        "EbmMalloc_ok env (brk st + 2) cSamples"
  shows "\<exists>aW counts. aWeights = Some aW \<and> cSamples \<le> length aW \<and>
           sampling_loop env cSamples 0 (rng st) (replicate cSamples 0) = Some (counts, rng st') \<and>
           invalid_total (AddPositiveFloatsSafeBig env cSamples
             (map (\<lambda>i. FloatFast_mul env (size_to_FloatFast env (counts ! i)) (aW ! i))
                [0..<cSamples]))"
  using assms
  by (auto simp: GenerateSingleInnerBag_def factory_defs
        split: if_splits option.splits prod.splits)

lemma GenerateSingleInnerBag_defined:
  assumes "rng_in_range env cSamples" "\<And>aW. aWeights = Some aW \<Longrightarrow> cSamples \<le> length aW"
  shows "\<exists>r st'. GenerateSingleInnerBag env cSamples aWeights st = Some (r, st')"
proof -
  obtain a' r' where
    "sampling_loop env cSamples 0 (rng st) (replicate cSamples 0) = Some (a', r')"
    using sampling_loop_defined [OF assms(1), of "replicate cSamples 0" 0 "rng st"] by auto
  then show ?thesis
  using assms(2)
  by (auto simp: GenerateSingleInnerBag_def factory_defs
        split: if_splits option.splits prod.splits)
qed

lemma read_bag_fresh:
  assumes "heap st' = h(p \<mapsto> Bag \<lparr>m_aCountOccurrences = Some (p + 1),
                       m_aWeights = Some (p + 2), m_weightTotal = Some t\<rparr>,
                     p + 1 \<mapsto> SizeArr counts, p + 2 \<mapsto> FloatArr ws)"
  shows "read_bag st' p = Some (counts, ws, t)"
  using assms by (simp add: read_bag_def)


lemma GenerateFlatInnerBag_read:
  assumes "GenerateFlatInnerBag env cSamples aWeights st = Some (Some p, st')"
  shows "read_bag st' p = Some (flat_contents env cSamples aWeights)"
proof -
  from GenerateFlatInnerBag_Some [OF assms] obtain ws t where
    p: "p = brk st" and
    h: "heap st' = (heap st)(brk st \<mapsto> Bag \<lparr>m_aCountOccurrences = Some (brk st + 1),
                       m_aWeights = Some (brk st + 2), m_weightTotal = Some t\<rparr>,
                     brk st + 1 \<mapsto> SizeArr (replicate cSamples 1),
                     brk st + 2 \<mapsto> FloatArr ws)" and
    c: "(case aWeights of
               None \<Rightarrow> ws = replicate cSamples (Finite 1) \<and> t = size_to_FloatBig env cSamples
             | Some aW \<Rightarrow> cSamples \<le> length aW \<and> ws = take cSamples aW \<and>
                           t = AddPositiveFloatsSafeBig env cSamples (take cSamples aW) \<and>
                           \<not> invalid_total t)"
    by blast
  have "read_bag st' p = Some (replicate cSamples 1, ws, t)"
    unfolding p using h by (rule read_bag_fresh)
  then show ?thesis using c by (cases aWeights) (simp_all add: flat_contents_def)
qed

lemma map_nth_upt: "length xs = n \<Longrightarrow> map (\<lambda>i. f (xs ! i)) [0..<n] = map f xs"
  by (rule nth_equalityI) simp_all

lemma GenerateSingleInnerBag_read:
  assumes "GenerateSingleInnerBag env cSamples aWeights st = Some (Some p, st')"
  shows "\<exists>counts ws t.
           sampling_loop env cSamples 0 (rng st) (replicate cSamples 0) = Some (counts, rng st') \<and>
           read_bag st' p = Some (counts, ws, t) \<and> length counts = cSamples \<and>
           (case aWeights of
               None \<Rightarrow> ws = map (size_to_FloatFast env) counts \<and>
                        t = size_to_FloatBig env cSamples
             | Some aW \<Rightarrow> cSamples \<le> length aW \<and>
                  ws = map (\<lambda>i. FloatFast_mul env (size_to_FloatFast env (counts ! i)) (aW ! i))
                         [0..<cSamples] \<and>
                  t = AddPositiveFloatsSafeBig env cSamples ws \<and> \<not> invalid_total t)"
proof -
  from GenerateSingleInnerBag_Some [OF assms] obtain counts ws t where
    p: "p = brk st" and
    s: "sampling_loop env cSamples 0 (rng st) (replicate cSamples 0) = Some (counts, rng st')" and
    h: "heap st' = (heap st)(brk st \<mapsto> Bag \<lparr>m_aCountOccurrences = Some (brk st + 1),
                       m_aWeights = Some (brk st + 2), m_weightTotal = Some t\<rparr>,
                     brk st + 1 \<mapsto> SizeArr counts,
                     brk st + 2 \<mapsto> FloatArr ws)" and
    c: "(case aWeights of
               None \<Rightarrow> ws = map (\<lambda>i. size_to_FloatFast env (counts ! i)) [0..<cSamples] \<and>
                        t = size_to_FloatBig env cSamples
             | Some aW \<Rightarrow> cSamples \<le> length aW \<and>
                  ws = map (\<lambda>i. FloatFast_mul env (size_to_FloatFast env (counts ! i)) (aW ! i))
                         [0..<cSamples] \<and>
                  t = AddPositiveFloatsSafeBig env cSamples ws \<and> \<not> invalid_total t)"
    by blast
  have r: "read_bag st' p = Some (counts, ws, t)"
    unfolding p using h by (rule read_bag_fresh)
  have l: "length counts = cSamples" using sampling_loop_length [OF s] by simp
  show ?thesis
    using s r l c by (cases aWeights) (auto simp: map_nth_upt)
qed

lemma valid_total:
  "\<not> invalid_total t \<Longrightarrow> \<not> isnan t \<and> \<not> isinf t \<and> gt_zero t"
  by (cases t) (simp_all add: invalid_total_def isnan_def isinf_def le_zero_def gt_zero_def)

lemma flat_outcome:
  assumes "cSamples \<le> length aW" and "heap_wf st"
  shows "\<exists>r st'. GenerateFlatInnerBag env cSamples (Some aW) st = Some (r, st') \<and>
            (r = None \<longrightarrow> heap st' = heap st) \<and>
            (r = None \<longleftrightarrow>
               \<not> allocations_succeed env cSamples st \<or>
               invalid_total (AddPositiveFloatsSafeBig env cSamples (take cSamples aW)))"
proof -
  obtain r st' where g: "GenerateFlatInnerBag env cSamples (Some aW) st = Some (r, st')"
    using GenerateFlatInnerBag_defined [of "Some aW" cSamples env st] assms(1) by auto
  have a: "heap st' = heap st" if "r = None"
    using GenerateFlatInnerBag_None [OF g [unfolded that] assms(2)] by simp
  have b: "invalid_total (AddPositiveFloatsSafeBig env cSamples (take cSamples aW))"
    if "r = None" "allocations_succeed env cSamples st"
    using GenerateFlatInnerBag_None_invalid [OF g [unfolded that(1)]] that(2)
    by (auto simp: allocations_succeed_def)
  have c: "allocations_succeed env cSamples st \<and>
           \<not> invalid_total (AddPositiveFloatsSafeBig env cSamples (take cSamples aW))"
    if "r = Some p" for p
    using GenerateFlatInnerBag_Some [OF g [unfolded that]]
    by (auto simp: allocations_succeed_def)
  have "r = None \<longleftrightarrow>
               \<not> allocations_succeed env cSamples st \<or>
               invalid_total (AddPositiveFloatsSafeBig env cSamples (take cSamples aW))"
    using b c by (cases r) auto
  with g a show ?thesis by blast
qed

lemma bootstrap_outcome:
  assumes "cSamples \<le> length aW" and "rng_in_range env cSamples" and "heap_wf st"
  shows "\<exists>r st' counts. GenerateSingleInnerBag env cSamples (Some aW) st = Some (r, st') \<and>
            sampling_loop env cSamples 0 (rng st) (replicate cSamples 0)
              = Some (counts, draws env cSamples cSamples (rng st)) \<and>
            (r = None \<longrightarrow> heap st' = heap st) \<and>
            (r = None \<longleftrightarrow>
               \<not> allocations_succeed env cSamples st \<or>
               invalid_total (AddPositiveFloatsSafeBig env cSamples
                                (effective_weights env cSamples counts aW)))"
proof -
  obtain counts r' where
    s: "sampling_loop env cSamples 0 (rng st) (replicate cSamples 0) = Some (counts, r')"
    using sampling_loop_defined [OF assms(2), of "replicate cSamples 0" 0 "rng st"] by auto
  have r': "r' = draws env cSamples cSamples (rng st)" using sampling_loop_rng [OF s] by simp
  obtain r st' where g: "GenerateSingleInnerBag env cSamples (Some aW) st = Some (r, st')"
    using GenerateSingleInnerBag_defined [OF assms(2), of "Some aW" st] assms(1) by auto
  have a: "heap st' = heap st" if "r = None"
    using GenerateSingleInnerBag_None [OF g [unfolded that] assms(3)] by simp
  have b: "invalid_total (AddPositiveFloatsSafeBig env cSamples
                                 (effective_weights env cSamples counts aW))"
    if "r = None" "allocations_succeed env cSamples st"
    using GenerateSingleInnerBag_None_invalid [OF g [unfolded that(1)]] that(2) s
    by (auto simp: allocations_succeed_def effective_weights_def)
  have c: "allocations_succeed env cSamples st \<and>
           \<not> invalid_total (AddPositiveFloatsSafeBig env cSamples
                                 (effective_weights env cSamples counts aW))"
    if "r = Some p" for p
    using GenerateSingleInnerBag_Some [OF g [unfolded that]] s
    by (auto simp: allocations_succeed_def effective_weights_def)
  have "r = None \<longleftrightarrow>
               \<not> allocations_succeed env cSamples st \<or>
               invalid_total (AddPositiveFloatsSafeBig env cSamples
                                (effective_weights env cSamples counts aW))"
    using b c by (cases r) auto
  with g s a show ?thesis unfolding r' by blast
qed

section \<open>Exact arithmetic\<close>

lemma size_conversion_ok_exact_env: "size_conversion_ok (exact_env refused)"
  by (simp add: size_conversion_ok_def exact_env_def)

lemma rng_in_range_exact_env: "0 < n \<Longrightarrow> rng_in_range (exact_env refused) n"
  by (simp add: rng_in_range_def exact_env_def replay_NextFast_def split: list.splits)

lemma heap_wf_init_state: "heap_wf (init_state r)"
  by (simp add: heap_wf_def init_state_def)

lemmas eval_defs = GenerateSingleInnerBag_def GenerateFlatInnerBag_def GenerateInnerBags_def
  EbmMalloc_def exact_env_def init_state_def InitializeUnfailing_def store_def
  replay_NextFast_def Let_def FreeInnerBags_def InnerBag_Free_def free_def exact_sum_def
  invalid_total_def isnan_def isinf_def le_zero_def

section \<open>Sound arithmetic\<close>

lemma sampling_loop_bounded:
  "sampling_loop env cSamples iSample r a = Some (a', r') \<Longrightarrow>
   list_all (\<lambda>c. c \<le> SIZE_MAX env) a \<Longrightarrow> list_all (\<lambda>c. c \<le> SIZE_MAX env) a'"
proof (induction env cSamples iSample r a rule: sampling_loop.induct)
  case (1 env cSamples iSample cpuRng a)
  show ?case
  proof (cases "iSample < cSamples")
    case True
    obtain i r1 where nf: "NextFast env cpuRng cSamples = (i, r1)"
      by (cases "NextFast env cpuRng cSamples")
    from "1.prems"(1) True nf have lt: "i < length a"
      by (simp add: sampling_loop.simps [of env cSamples iSample] split: if_splits)
    let ?a1 = "a[i := (a ! i + 1) mod (SIZE_MAX env + 1)]"
    from "1.prems"(1) True nf lt
    have rec: "sampling_loop env cSamples (iSample + 1) r1 ?a1 = Some (a', r')"
      by (simp add: sampling_loop.simps [of env cSamples iSample])
    have "(a ! i + 1) mod (SIZE_MAX env + 1) \<le> SIZE_MAX env"
      using mod_less_divisor [of "SIZE_MAX env + 1" "a ! i + 1"] by simp
    then have "list_all (\<lambda>c. c \<le> SIZE_MAX env) ?a1"
      using "1.prems"(2) by (auto simp: list_all_iff dest!: set_update_subset_insert [THEN subsetD])
    from "1.IH" [OF True nf [symmetric] lt rec this] show ?thesis .
  next
    case False
    with "1.prems" show ?thesis by (simp add: sampling_loop.simps [of env cSamples iSample])
  qed
qed

lemma gt_zero_nonneg: "gt_zero x \<Longrightarrow> nonneg x"
  by (cases x) (simp_all add: gt_zero_def nonneg_def)

lemma gt_zero_valid: "gt_zero t \<Longrightarrow> invalid_total t \<longleftrightarrow> isinf t"
  by (cases t) (simp_all add: gt_zero_def invalid_total_def isnan_def isinf_def le_zero_def)

lemma fl_add_nonneg:
  "nonneg a \<Longrightarrow> nonneg w \<Longrightarrow> nonneg (fl_add a w)"
  "nonneg a \<Longrightarrow> nonneg w \<Longrightarrow> gt_zero a \<or> gt_zero w \<Longrightarrow> gt_zero (fl_add a w)"
  by (cases a; cases w; simp add: nonneg_def gt_zero_def; linarith)+

lemma foldl_fl_add_nonneg:
  "nonneg a \<Longrightarrow> list_all nonneg ws \<Longrightarrow>
   nonneg (foldl fl_add a ws) \<and>
   (gt_zero a \<or> list_ex gt_zero ws \<longrightarrow> gt_zero (foldl fl_add a ws))"
proof (induction ws arbitrary: a)
  case Nil
  then show ?case by simp
next
  case (Cons w ws)
  have n: "nonneg (fl_add a w)" using Cons.prems by (simp add: fl_add_nonneg(1))
  have g: "gt_zero a \<or> gt_zero w \<Longrightarrow> gt_zero (fl_add a w)"
    using Cons.prems by (simp add: fl_add_nonneg(2))
  from Cons.IH [OF n] Cons.prems(2) g show ?case by auto
qed

lemma foldl_fl_add_zeros:
  "list_all (\<lambda>w. w = Finite 0) ws \<Longrightarrow> foldl fl_add (Finite 0) ws = Finite 0"
  by (induction ws) simp_all

lemma exact_sum_sound:
  "list_all (\<lambda>w. w = Finite 0) (take n ws) \<Longrightarrow> exact_sum n ws = Finite 0"
  "list_all nonneg (take n ws) \<Longrightarrow> list_ex gt_zero (take n ws) \<Longrightarrow> gt_zero (exact_sum n ws)"
proof -
  show "list_all (\<lambda>w. w = Finite 0) (take n ws) \<Longrightarrow> exact_sum n ws = Finite 0"
    by (simp add: exact_sum_def foldl_fl_add_zeros)
  assume "list_all nonneg (take n ws)" "list_ex gt_zero (take n ws)"
  then show "gt_zero (exact_sum n ws)"
    using foldl_fl_add_nonneg [of "Finite 0" "take n ws"]
    by (simp add: exact_sum_def nonneg_def)
qed

lemma sum_sound_exact_env: "sum_sound (exact_env refused)"
  by (simp add: sum_sound_def exact_env_def exact_sum_sound)

lemma sum_sound_overflowing_env: "0 \<le> M \<Longrightarrow> sum_sound (overflowing_env M)"
proof -
  assume M: "0 \<le> M"
  have g: "gt_zero (overflowing_sum M n ws)" if "gt_zero (exact_sum n ws)" for n ws
    using that by (cases "exact_sum n ws") (simp_all add: overflowing_sum_def gt_zero_def)
  have z: "overflowing_sum M n ws = Finite 0" if "exact_sum n ws = Finite 0" for n ws
    using that M by (simp add: overflowing_sum_def)
  show ?thesis
    by (simp add: sum_sound_def overflowing_env_def exact_env_def exact_sum_sound g z)
qed

lemma product_sound_exact_env: "product_sound (exact_env refused)"
  by (simp add: product_sound_def exact_env_def gt_zero_def)

lemma product_sound_overflowing_env: "product_sound (overflowing_env M)"
  by (simp add: product_sound_def overflowing_env_def exact_env_def gt_zero_def)

lemma rng_in_range_overflowing_env: "0 < n \<Longrightarrow> rng_in_range (overflowing_env M) n"
  using rng_in_range_exact_env [of n "[]"]
  by (simp add: rng_in_range_def overflowing_env_def exact_env_def)

lemma sound_total_cases:
  assumes "sum_sound env" and "length ws = n"
      and "\<And>i. i < n \<Longrightarrow> (P i \<longrightarrow> gt_zero (ws ! i)) \<and> (\<not> P i \<longrightarrow> ws ! i = Finite 0)"
  shows "invalid_total (AddPositiveFloatsSafeBig env n ws) \<longleftrightarrow>
           \<not> (\<exists>i<n. P i) \<or> isinf (AddPositiveFloatsSafeBig env n ws)"
proof (cases "\<exists>i<n. P i")
  case True
  then obtain i where i: "i < n" "P i" by blast
  have "nonneg (ws ! j)" if "j < n" for j
  proof (cases "P j")
    case True
    then show ?thesis using assms(3) [OF that] by (simp add: gt_zero_nonneg)
  next
    case False
    then show ?thesis using assms(3) [OF that] by (simp add: nonneg_def)
  qed
  then have nn: "list_all nonneg (take n ws)"
    unfolding list_all_length using assms(2) by simp
  have "gt_zero (ws ! i)" using assms(3) i by blast
  then have ex: "list_ex gt_zero (take n ws)"
    unfolding list_ex_length using assms(2) i(1) by auto
  have "gt_zero (AddPositiveFloatsSafeBig env n ws)"
    using assms(1,2) nn ex unfolding sum_sound_def by simp
  then show ?thesis using True by (simp add: gt_zero_valid)
next
  case False
  then have "list_all (\<lambda>w. w = Finite 0) (take n ws)"
    unfolding list_all_length using assms(2,3) by auto
  then have "AddPositiveFloatsSafeBig env n ws = Finite 0"
    using assms(1,2) unfolding sum_sound_def by simp
  then show ?thesis using False by (simp add: invalid_total_def le_zero_def)
qed

lemma flat_total_cases:
  assumes "sum_sound env" and "length rs = n" and "\<forall>r\<in>set rs. 0 \<le> r"
  shows "invalid_total (AddPositiveFloatsSafeBig env n (map Finite rs)) \<longleftrightarrow>
           \<not> (\<exists>i<n. 0 < rs ! i) \<or> isinf (AddPositiveFloatsSafeBig env n (map Finite rs))"
proof (rule sound_total_cases [OF assms(1)])
  show "length (map Finite rs) = n" using assms(2) by simp
next
  fix i assume "i < n"
  then have "0 \<le> rs ! i" using assms(2,3) by simp
  then show "(0 < rs ! i \<longrightarrow> gt_zero (map Finite rs ! i)) \<and>
             (\<not> 0 < rs ! i \<longrightarrow> map Finite rs ! i = Finite 0)"
    using \<open>i < n\<close> assms(2) by (auto simp: gt_zero_def)
qed

lemma bootstrap_total_cases:
  assumes "sum_sound env" and "product_sound env"
      and "length rs = n" and "\<forall>r\<in>set rs. 0 \<le> r"
      and "length counts = n" and "list_all (\<lambda>c. c \<le> SIZE_MAX env) counts"
  shows "invalid_total (AddPositiveFloatsSafeBig env n
                          (effective_weights env n counts (map Finite rs))) \<longleftrightarrow>
           \<not> (\<exists>i<n. 0 < counts ! i \<and> 0 < rs ! i) \<or>
           isinf (AddPositiveFloatsSafeBig env n (effective_weights env n counts (map Finite rs)))"
proof (rule sound_total_cases [OF assms(1)])
  show "length (effective_weights env n counts (map Finite rs)) = n"
    by (simp add: effective_weights_def)
next
  fix i assume i: "i < n"
  then have w: "0 \<le> rs ! i" using assms(3,4) by simp
  have c: "counts ! i \<le> SIZE_MAX env" using assms(5,6) i by (simp add: list_all_length)
  have e: "effective_weights env n counts (map Finite rs) ! i
             = FloatFast_mul env (size_to_FloatFast env (counts ! i)) (Finite (rs ! i))"
    using i assms(3) by (simp add: effective_weights_def)
  from assms(2) c w
  have "if counts ! i = 0 \<or> rs ! i = 0
        then FloatFast_mul env (size_to_FloatFast env (counts ! i)) (Finite (rs ! i)) = Finite 0
        else gt_zero (FloatFast_mul env (size_to_FloatFast env (counts ! i)) (Finite (rs ! i)))"
    unfolding product_sound_def by blast
  then show "(0 < counts ! i \<and> 0 < rs ! i \<longrightarrow>
                gt_zero (effective_weights env n counts (map Finite rs) ! i)) \<and>
             (\<not> (0 < counts ! i \<and> 0 < rs ! i) \<longrightarrow>
                effective_weights env n counts (map Finite rs) ! i = Finite 0)"
    unfolding e using w by (auto split: if_splits)
qed

section \<open>Releasing a set of bags\<close>

lemma free_only_frees:
  "free p st = Some st' \<Longrightarrow> heap st' a = heap st a \<or> heap st' a = None"
  by (auto simp: free_def split: option.splits if_splits)

lemma InnerBag_Free_only_frees:
  "InnerBag_Free b st = Some st' \<Longrightarrow> heap st' a = heap st a \<or> heap st' a = None"
  by (auto simp: InnerBag_Free_def free_def split: option.splits obj.splits if_splits)

lemma free_slots_stays_dead:
  "free_slots slots st = Some st' \<Longrightarrow> heap st a = None \<Longrightarrow> heap st' a = None"
proof (induction slots st rule: free_slots.induct)
  case (3 b slots st)
  then obtain st1 where f: "InnerBag_Free b st = Some st1" and r: "free_slots slots st1 = Some st'"
    by (auto split: option.splits)
  from InnerBag_Free_only_frees [OF f, of a] "3.prems"(2) have "heap st1 a = None" by auto
  from "3.IH" [OF f r this] show ?case .
qed simp_all

lemma free_dead: "heap st a = None \<Longrightarrow> free (Some a) st = None"
  by (simp add: free_def)

lemma free_slots_then_free_dead:
  "heap st ap = None \<Longrightarrow>
   (case free_slots slots st of None \<Rightarrow> None | Some st' \<Rightarrow> free (Some ap) st') = None"
  by (auto split: option.splits dest: free_slots_stays_dead simp: free_dead)

lemma FreeInnerBags_loop_dead:
  "heap st ap = None \<Longrightarrow> FreeInnerBags_loop n ap i st = None"
  by (simp add: FreeInnerBags_loop.simps [of n ap i st])

lemma FreeInnerBags_loop_not_slots:
  "\<forall>slots. heap st ap \<noteq> Some (PtrArr slots) \<Longrightarrow> FreeInnerBags_loop n ap i st = None"
  by (auto simp: FreeInnerBags_loop.simps [of n ap i st] split: option.splits obj.splits)

lemma FreeInnerBags_loop_unfold:
  "heap st ap = Some (PtrArr slots) \<Longrightarrow> i < length slots \<Longrightarrow>
   FreeInnerBags_loop n ap i st =
     (case (case slots ! i of None \<Rightarrow> Some st | Some b \<Rightarrow> InnerBag_Free b st) of
        None \<Rightarrow> None
      | Some st' \<Rightarrow> if n \<noteq> i + 1 then FreeInnerBags_loop n ap (i + 1) st' else Some st')"
  by (subst FreeInnerBags_loop.simps) simp

lemma FreeInnerBags_loop_refines:
  fixes st :: "'r state"
  shows "heap st ap = Some (PtrArr slots) \<Longrightarrow> i < n \<Longrightarrow> n \<le> length slots \<Longrightarrow>
   (case FreeInnerBags_loop n ap i st of None \<Rightarrow> None | Some st' \<Rightarrow> free (Some ap) st') =
   (case free_slots (drop i (take n slots)) st of None \<Rightarrow> None | Some st' \<Rightarrow> free (Some ap) st')"
proof (induction "n - i" arbitrary: i st)
  case 0
  then show ?case by simp
next
  case (Suc k)
  have il: "i < length slots" using Suc.prems by simp
  note unf = FreeInnerBags_loop_unfold [OF Suc.prems(1) il, of n]
  have dr: "drop i (take n slots) = slots ! i # drop (i + 1) (take n slots)"
    using Suc.prems by (simp add: Cons_nth_drop_Suc [symmetric])
  have last: "n = i + 1 \<Longrightarrow> drop (i + 1) (take n slots) = []" by simp
  have step: "(case FreeInnerBags_loop n ap (i + 1) st1 of None \<Rightarrow> None | Some st' \<Rightarrow> free (Some ap) st') =
      (case free_slots (drop (i + 1) (take n slots)) st1 of None \<Rightarrow> None | Some st' \<Rightarrow> free (Some ap) st')"
    if "heap st1 ap = Some (PtrArr slots)" "n \<noteq> i + 1" for st1 :: "'r state"
  proof -
    have "k = n - (i + 1)" "i + 1 < n" using that(2) Suc.hyps(2) Suc.prems by linarith+
    from Suc.hyps(1) [OF this(1) that(1) this(2) Suc.prems(3)] show ?thesis .
  qed
  show ?case
  proof (cases "slots ! i")
    case None
    show ?thesis
    proof (cases "n = i + 1")
      case True
      have "FreeInnerBags_loop n ap i st = Some st" using unf None True by simp
      moreover have "free_slots (drop i (take n slots)) st = Some st"
        using dr last [OF True] None by simp
      ultimately show ?thesis by simp
    next
      case False
      have "FreeInnerBags_loop n ap i st = FreeInnerBags_loop n ap (i + 1) st"
        using unf None False by simp
      moreover have "free_slots (drop i (take n slots)) st
                       = free_slots (drop (i + 1) (take n slots)) st"
        using dr None by simp
      ultimately show ?thesis using step [OF Suc.prems(1) False] by simp
    qed
  next
    case (Some b)
    show ?thesis
    proof (cases "InnerBag_Free b st")
      case None
      have "FreeInnerBags_loop n ap i st = None" using unf Some None by simp
      moreover have "free_slots (drop i (take n slots)) st = None" using dr Some None by simp
      ultimately show ?thesis by simp
    next
      case st1: (Some st1)
      have r: "free_slots (drop i (take n slots)) st
                 = free_slots (drop (i + 1) (take n slots)) st1"
        using dr Some st1 by simp
      have l: "FreeInnerBags_loop n ap i st =
                 (if n \<noteq> i + 1 then FreeInnerBags_loop n ap (i + 1) st1 else Some st1)"
        using unf Some st1 by simp
      consider "heap st1 ap = Some (PtrArr slots)" | "heap st1 ap = None"
        using InnerBag_Free_only_frees [OF st1, of ap] Suc.prems(1) by auto
      then show ?thesis
      proof cases
        case 1
        show ?thesis
        proof (cases "n = i + 1")
          case True
          then show ?thesis using l r last [OF True] by simp
        next
          case False
          then show ?thesis using l r step [OF 1 False] by simp
        qed
      next
        case 2
        have "(case free_slots (drop (i + 1) (take n slots)) st1 of None \<Rightarrow> None
                    | Some st' \<Rightarrow> free (Some ap) st') = None"
          using free_slots_then_free_dead [OF 2] by simp
        moreover have "(case FreeInnerBags_loop n ap i st of None \<Rightarrow> None
                    | Some st' \<Rightarrow> free (Some ap) st') = None"
          using l 2 by (simp add: FreeInnerBags_loop_dead free_dead)
        ultimately show ?thesis using r by simp
      qed
    qed
  qed
qed

lemma FreeInnerBags_loop_overrun:
  "heap st ap = Some (PtrArr slots) \<Longrightarrow> i \<le> length slots \<Longrightarrow> length slots < n \<Longrightarrow>
   FreeInnerBags_loop n ap i st = None"
proof (induction "length slots - i" arbitrary: i st)
  case 0
  then show ?case by (simp add: FreeInnerBags_loop.simps [of n ap i st])
next
  case (Suc k)
  have il: "i < length slots" using Suc.hyps(2) by simp
  have ne: "n \<noteq> i + 1" using il Suc.prems by simp
  show ?case
  proof (cases "(case slots ! i of None \<Rightarrow> Some st | Some b \<Rightarrow> InnerBag_Free b st)")
    case None
    then show ?thesis using FreeInnerBags_loop_unfold [OF Suc.prems(1) il, of n] by simp
  next
    case (Some st1)
    have "heap st1 ap = heap st ap \<or> heap st1 ap = None"
      using Some InnerBag_Free_only_frees [of _ st st1 ap] by (auto split: option.splits)
    then have "FreeInnerBags_loop n ap (i + 1) st1 = None"
    proof
      assume "heap st1 ap = heap st ap"
      then have "heap st1 ap = Some (PtrArr slots)" using Suc.prems(1) by simp
      from Suc.hyps(1) [OF _ this _ Suc.prems(3)] Suc.hyps(2) il show ?thesis by simp
    next
      assume "heap st1 ap = None"
      then show ?thesis by (rule FreeInnerBags_loop_dead)
    qed
    then show ?thesis
      using Some ne FreeInnerBags_loop_unfold [OF Suc.prems(1) il, of n] by simp
  qed
qed

lemma FreeInnerBags_release:
  "FreeInnerBags cInnerBags apInnerBags st = release cInnerBags apInnerBags st"
proof (cases apInnerBags)
  case None
  then show ?thesis by (simp add: FreeInnerBags_def release_def)
next
  case (Some ap)
  let ?n = "if 0 = cInnerBags then 1 else cInnerBags"
  have n: "?n = max cInnerBags 1" by simp
  show ?thesis
  proof (cases "\<exists>slots. heap st ap = Some (PtrArr slots)")
    case False
    then have "FreeInnerBags_loop ?n ap 0 st = None"
      by (intro FreeInnerBags_loop_not_slots) simp
    moreover have "release cInnerBags (Some ap) st = None"
      using False by (auto simp: release_def split: option.splits obj.splits)
    ultimately show ?thesis using Some by (simp add: FreeInnerBags_def Let_def)
  next
    case True
    then obtain slots where h: "heap st ap = Some (PtrArr slots)" by blast
    show ?thesis
    proof (cases "length slots < ?n")
      case True
      from FreeInnerBags_loop_overrun [OF h _ True] h True Some n show ?thesis
        by (simp add: FreeInnerBags_def release_def Let_def del: max_def)
    next
      case False
      then have le: "?n \<le> length slots" by simp
      have pos: "0 < ?n" by simp
      from FreeInnerBags_loop_refines [OF h pos le] h False Some n show ?thesis
        by (simp add: FreeInnerBags_def release_def Let_def)
    qed
  qed
qed

lemma slot_cells_simps [simp]:
  "slot_cells h [] = []"
  "slot_cells h (None # s) = slot_cells h s"
  "slot_cells h (Some b # s) = cells h b @ slot_cells h s"
  "slot_cells h (xs @ ys) = slot_cells h xs @ slot_cells h ys"
  "slot_cells h (replicate k None) = []"
  by (simp_all add: slot_cells_def)

lemma InnerBag_Free_effect:
  assumes "bag_live (heap st) b" "distinct (cells (heap st) b)"
  shows "InnerBag_Free b st = Some (release_heap (cells (heap st) b) st)"
proof -
  from assms(1) obtain x where x: "heap st b = Some (Bag x)" by (auto simp: bag_live_def)
  show ?thesis
    using assms x
    by (cases "m_aCountOccurrences x"; cases "m_aWeights x")
       (auto simp: bag_live_def cells_def InnerBag_Free_def free_def release_heap_def fun_eq_iff
             split: option.splits)
qed

lemma cells_cong: "h1 b = h b \<Longrightarrow> cells h1 b = cells h b"
  by (simp add: cells_def)

lemma slot_cells_cong:
  "(\<And>b. Some b \<in> set slots \<Longrightarrow> h1 b = h b) \<Longrightarrow> slot_cells h1 slots = slot_cells h slots"
proof (induction slots)
  case (Cons s slots)
  have ih: "slot_cells h1 slots = slot_cells h slots" using Cons by simp
  show ?case
  proof (cases s)
    case None
    then show ?thesis using ih by simp
  next
    case (Some b)
    have "h1 b = h b" using Cons.prems Some by simp
    then have "cells h1 b = cells h b" by (rule cells_cong)
    then show ?thesis using ih Some by simp
  qed
qed simp

lemma bag_live_self: "bag_live h b \<Longrightarrow> b \<in> set (cells h b)"
  by (auto simp: bag_live_def cells_def)

lemma cells_in_slot_cells: "Some b \<in> set slots \<Longrightarrow> set (cells h b) \<subseteq> set (slot_cells h slots)"
proof (induction slots)
  case (Cons s slots)
  then show ?case by (cases s) auto
qed simp

lemma release_heap_append:
  "release_heap ys (release_heap xs st) = release_heap (xs @ ys) st"
  by (simp add: release_heap_def fun_eq_iff)

lemma heap_release_heap:
  "heap (release_heap as st) a = (if a \<in> set as then None else heap st a)"
  by (simp add: release_heap_def)

lemma bag_live_cong:
  "bag_live h b \<Longrightarrow> (\<And>a. a \<in> set (cells h b) \<Longrightarrow> h1 a = h a) \<Longrightarrow> bag_live h1 b"
proof -
  assume l: "bag_live h b" and e: "\<And>a. a \<in> set (cells h b) \<Longrightarrow> h1 a = h a"
  have "h1 b = h b" using e bag_live_self [OF l] by simp
  then have "cells h1 b = cells h b" by (rule cells_cong)
  then show ?thesis using l e \<open>h1 b = h b\<close> by (simp add: bag_live_def list_all_iff)
qed

lemma free_slots_effect:
  fixes st :: "'r state"
  assumes "\<And>b. Some b \<in> set slots \<Longrightarrow> bag_live (heap st) b"
      and "distinct (slot_cells (heap st) slots)"
  shows "free_slots slots st = Some (release_heap (slot_cells (heap st) slots) st)"
  using assms
proof (induction slots arbitrary: st)
  case Nil
  then show ?case by (simp add: release_heap_def)
next
  case (Cons s slots)
  show ?case
  proof (cases s)
    case None
    with Cons show ?thesis by simp
  next
    case (Some b)
    let ?h = "heap st"
    let ?st1 = "release_heap (cells ?h b) st"
    have live_b: "bag_live ?h b" using Cons.prems(1) Some by simp
    have dist: "distinct (cells ?h b)" "distinct (slot_cells ?h slots)"
      "set (cells ?h b) \<inter> set (slot_cells ?h slots) = {}"
      using Cons.prems(2) Some by simp_all
    have fb: "InnerBag_Free b st = Some ?st1"
      using live_b dist(1) by (rule InnerBag_Free_effect)
    have same: "heap ?st1 a = ?h a" if "a \<in> set (slot_cells ?h slots)" for a
      using that dist(3) by (auto simp: heap_release_heap)
    have live': "bag_live (heap ?st1) b'" if "Some b' \<in> set slots" for b'
    proof (rule bag_live_cong)
      show "bag_live ?h b'" using Cons.prems(1) that by simp
      fix a assume "a \<in> set (cells ?h b')"
      then have "a \<in> set (slot_cells ?h slots)" using cells_in_slot_cells [OF that] by auto
      then show "heap ?st1 a = ?h a" by (rule same)
    qed
    have sc: "slot_cells (heap ?st1) slots = slot_cells ?h slots"
    proof (rule slot_cells_cong)
      fix b' assume m: "Some b' \<in> set slots"
      have "b' \<in> set (cells ?h b')" using Cons.prems(1) m by (simp add: bag_live_self)
      then have "b' \<in> set (slot_cells ?h slots)" using cells_in_slot_cells [OF m] by auto
      then show "heap ?st1 b' = ?h b'" by (rule same)
    qed
    have "free_slots slots ?st1 = Some (release_heap (slot_cells (heap ?st1) slots) ?st1)"
    proof (rule Cons.IH)
      show "\<And>b. Some b \<in> set slots \<Longrightarrow> bag_live (heap ?st1) b" by (rule live')
      show "distinct (slot_cells (heap ?st1) slots)" unfolding sc by (rule dist(2))
    qed
    then have "free_slots slots ?st1 = Some (release_heap (cells ?h b @ slot_cells ?h slots) st)"
      unfolding sc release_heap_append .
    then show ?thesis
      using Some fb by simp
  qed
qed

lemma free_release_heap:
  "heap st a = Some x \<Longrightarrow> a \<notin> set as \<Longrightarrow>
   free (Some a) (release_heap as st) = Some (release_heap (a # as) st)"
  by (simp add: free_def release_heap_def fun_eq_iff)

lemma FreeInnerBags_effect:
  fixes st :: "'r state"
  assumes "heap st ap = Some (PtrArr slots)" and "max cInnerBags 1 \<le> length slots"
      and "list_all (\<lambda>s. case s of None \<Rightarrow> True | Some b \<Rightarrow> bag_live (heap st) b)
             (take (max cInnerBags 1) slots)"
      and "distinct (ap # slot_cells (heap st) (take (max cInnerBags 1) slots))"
  shows "FreeInnerBags cInnerBags (Some ap) st =
          Some (release_heap (ap # slot_cells (heap st) (take (max cInnerBags 1) slots)) st)"
proof -
  let ?s = "take (max cInnerBags 1) slots"
  have live: "bag_live (heap st) b" if "Some b \<in> set ?s" for b
    using assms(3) that by (auto simp: list_all_iff split: option.splits)
  have fs: "free_slots ?s st = Some (release_heap (slot_cells (heap st) ?s) st)"
    using live assms(4) by (intro free_slots_effect) simp_all
  have "free (Some ap) (release_heap (slot_cells (heap st) ?s) st)
           = Some (release_heap (ap # slot_cells (heap st) ?s) st)"
    using assms(1,4) by (intro free_release_heap) simp_all
  moreover have "\<not> length slots < max cInnerBags 1" using assms(2) by auto
  ultimately show ?thesis
    using fs assms(1) by (simp add: FreeInnerBags_release release_def del: max_def)
qed

section \<open>Building a set of bags\<close>

lemma full_bag_live: "full_bag h n b \<Longrightarrow> bag_live h b"
  by (auto simp: full_bag_def bag_live_def cells_def)

lemma full_bag_read:
  "full_bag (heap st) n b \<Longrightarrow>
   \<exists>counts ws t. read_bag st b = Some (counts, ws, t) \<and> length counts = n \<and> length ws = n"
  by (auto simp: full_bag_def read_bag_def)

lemma full_bag_cong:
  assumes "full_bag h n b" and "\<And>a. a \<in> set (cells h b) \<Longrightarrow> h2 a = h a"
  shows "full_bag h2 n b"
proof -
  from assms(1) obtain c w t counts ws where
    x: "h b = Some (Bag \<lparr>m_aCountOccurrences = Some c, m_aWeights = Some w, m_weightTotal = Some t\<rparr>)"
       "h c = Some (SizeArr counts)" "h w = Some (FloatArr ws)"
       "length counts = n" "length ws = n"
    unfolding full_bag_def by blast
  have "cells h b = [b, c, w]" using x(1) by (simp add: cells_def)
  then have "h2 b = h b" "h2 c = h c" "h2 w = h w" using assms(2) by simp_all
  then show ?thesis using x unfolding full_bag_def by auto
qed

lemma slot_cells_owned:
  "slot_cells h (map Some bs @ replicate k None) = owned h bs"
  by (induction bs) (simp_all add: owned_def)

lemma owned_cong:
  "(\<And>b. b \<in> set bs \<Longrightarrow> h2 b = h b) \<Longrightarrow> owned h2 bs = owned h bs"
  unfolding owned_def by (intro arg_cong [where f = concat] map_cong refl cells_cong) simp

lemma cells_in_owned: "b \<in> set bs \<Longrightarrow> set (cells h b) \<subseteq> set (owned h bs)"
  by (auto simp: owned_def)

lemma set_inv_owned_facts:
  assumes "set_inv n B ap bs st" "a \<in> set (owned (heap st) bs)"
  shows "heap st a \<noteq> None" "a < brk st" "a \<noteq> ap" "B \<le> a"
proof -
  from assms have m: "a \<in> {a. B \<le> a \<and> heap st a \<noteq> None}" by (simp add: set_inv_def)
  then show "heap st a \<noteq> None" "B \<le> a" by simp_all
  then show "a < brk st" using assms(1) by (auto simp: set_inv_def heap_wf_def not_le [symmetric])
  show "a \<noteq> ap" using assms by (auto simp: set_inv_def)
qed

lemma set_inv_ap_facts:
  assumes "set_inv n B ap bs st"
  shows "heap st ap \<noteq> None" "ap < brk st" "B \<le> ap"
proof -
  from assms have m: "ap \<in> {a. B \<le> a \<and> heap st a \<noteq> None}" by (simp add: set_inv_def)
  then show "heap st ap \<noteq> None" "B \<le> ap" by simp_all
  then show "ap < brk st" using assms(1) by (auto simp: set_inv_def heap_wf_def not_le [symmetric])
qed

lemma set_inv_bag_in_owned:
  assumes "set_inv n B ap bs st" "b \<in> set bs"
  shows "b \<in> set (owned (heap st) bs)"
proof -
  have "full_bag (heap st) n b" using assms by (simp add: set_inv_def list_all_iff)
  then have "b \<in> set (cells (heap st) b)" by (intro bag_live_self full_bag_live)
  then show ?thesis using cells_in_owned [OF assms(2)] by auto
qed

lemma set_inv_step:
  fixes st :: "'r state"
  assumes inv: "set_inv cSamples B ap bs st"
      and gen: "GenerateSingleInnerBag env cSamples aWeights st = Some (Some p, st1)"
  shows "set_inv cSamples B ap (bs @ [p]) (store ap (PtrArr slots') st1)"
    and "\<And>a. a < B \<Longrightarrow> heap (store ap (PtrArr slots') st1) a = heap st a"
    and "p \<notin> set bs"
proof -
  let ?h = "heap st"
  let ?st2 = "store ap (PtrArr slots') st1"
  let ?h2 = "heap ?st2"
  from GenerateSingleInnerBag_Some [OF gen] obtain counts ws t where
    p: "p = brk st" and b1: "brk st1 = brk st + 3" and
    s: "sampling_loop env cSamples 0 (rng st) (replicate cSamples 0) = Some (counts, rng st1)" and
    h1: "heap st1 = ?h(p \<mapsto> Bag \<lparr>m_aCountOccurrences = Some (p + 1),
                       m_aWeights = Some (p + 2), m_weightTotal = Some t\<rparr>,
                     p + 1 \<mapsto> SizeArr counts, p + 2 \<mapsto> FloatArr ws)" and
    c: "(case aWeights of
               None \<Rightarrow> ws = map (\<lambda>i. size_to_FloatFast env (counts ! i)) [0..<cSamples] \<and>
                        t = size_to_FloatBig env cSamples
             | Some aW \<Rightarrow> cSamples \<le> length aW \<and>
                  ws = map (\<lambda>i. FloatFast_mul env (size_to_FloatFast env (counts ! i)) (aW ! i))
                         [0..<cSamples] \<and>
                  t = AddPositiveFloatsSafeBig env cSamples ws \<and> \<not> invalid_total t)"
    by blast
  have lc: "length counts = cSamples" using sampling_loop_length [OF s] by simp
  have lw: "length ws = cSamples" using c by (cases aWeights) auto
  note apf = set_inv_ap_facts [OF inv]
  note of = set_inv_owned_facts [OF inv]
  have wf: "heap_wf st" using inv by (simp add: set_inv_def)
  have brk2: "brk ?st2 = brk st + 3" using b1 by (simp add: store_def)
  have h2: "?h2 = (heap st1)(ap \<mapsto> PtrArr slots')" by (simp add: store_def)
  have ap_ne: "ap \<noteq> p" "ap \<noteq> p + 1" "ap \<noteq> p + 2" using apf(2) p by simp_all
  have h2p: "?h2 p = Some (Bag \<lparr>m_aCountOccurrences = Some (p + 1),
                       m_aWeights = Some (p + 2), m_weightTotal = Some t\<rparr>)"
       "?h2 (p + 1) = Some (SizeArr counts)" "?h2 (p + 2) = Some (FloatArr ws)"
       "?h2 ap = Some (PtrArr slots')"
    using ap_ne by (simp_all add: h2 h1)
  have other: "?h2 a = ?h a" if "a \<noteq> ap" "a \<noteq> p" "a \<noteq> p + 1" "a \<noteq> p + 2" for a
    using that by (simp add: h2 h1)
  have old: "?h2 a = ?h a" if "a \<in> set (owned ?h bs)" for a
    using of(2,3) [OF that] p by (intro other) simp_all
  show low: "\<And>a. a < B \<Longrightarrow> ?h2 a = ?h a"
    using apf(2,3) p by (intro other) simp_all
  show fresh: "p \<notin> set bs"
    using set_inv_bag_in_owned [OF inv, of p] of(2) [of p] p by auto
  have ow: "owned ?h2 bs = owned ?h bs"
  proof (rule owned_cong)
    fix b assume "b \<in> set bs"
    then show "?h2 b = ?h b" using set_inv_bag_in_owned [OF inv] old by simp
  qed
  have cp: "cells ?h2 p = [p, p + 1, p + 2]" using h2p(1) by (simp add: cells_def)
  have ow2: "owned ?h2 (bs @ [p]) = owned ?h bs @ [p, p + 1, p + 2]"
    using ow cp by (simp add: owned_def)
  have full_old: "full_bag ?h2 cSamples b" if "b \<in> set bs" for b
  proof (rule full_bag_cong)
    show "full_bag ?h cSamples b" using inv that by (simp add: set_inv_def list_all_iff)
    fix a assume "a \<in> set (cells ?h b)"
    then have "a \<in> set (owned ?h bs)" using cells_in_owned [OF that] by auto
    then show "?h2 a = ?h a" by (rule old)
  qed
  have full_new: "full_bag ?h2 cSamples p"
    unfolding full_bag_def using h2p lc lw by blast
  have full: "list_all (full_bag ?h2 cSamples) (bs @ [p])"
    using full_old full_new by (simp add: list_all_iff)
  have dist_old: "distinct (ap # owned ?h bs)" using inv by (simp add: set_inv_def)
  have nf: "p \<notin> set (owned ?h bs)" "p + 1 \<notin> set (owned ?h bs)" "p + 2 \<notin> set (owned ?h bs)"
    using of(2) [of p] of(2) [of "p + 1"] of(2) [of "p + 2"] p by auto
  have dist: "distinct (ap # owned ?h2 (bs @ [p]))"
    unfolding ow2 using dist_old ap_ne nf by simp
  have live_eq: "{a. B \<le> a \<and> ?h a \<noteq> None} = set (ap # owned ?h bs)"
    using inv by (simp add: set_inv_def)
  have live2: "{a. B \<le> a \<and> ?h2 a \<noteq> None} = set (ap # owned ?h2 (bs @ [p]))"
  proof (rule set_eqI)
    fix a
    show "a \<in> {a. B \<le> a \<and> ?h2 a \<noteq> None} \<longleftrightarrow> a \<in> set (ap # owned ?h2 (bs @ [p]))"
    proof (cases "a = ap \<or> a = p \<or> a = p + 1 \<or> a = p + 2")
      case True
      then show ?thesis using h2p apf(2,3) p unfolding ow2 by auto
    next
      case False
      then have "?h2 a = ?h a" by (intro other) simp_all
      moreover have "a \<in> {a. B \<le> a \<and> ?h a \<noteq> None} \<longleftrightarrow> a \<in> set (ap # owned ?h bs)"
        using live_eq by simp
      ultimately show ?thesis using False unfolding ow2 by simp
    qed
  qed
  have wf2: "heap_wf ?st2"
    unfolding heap_wf_def
  proof (intro allI impI)
    fix a assume "brk ?st2 \<le> a"
    then have ge: "brk st + 3 \<le> a" using brk2 by simp
    then have "?h2 a = ?h a" using apf(2) p by (intro other) simp_all
    moreover have "?h a = None" using wf ge by (simp add: heap_wf_def)
    ultimately show "?h2 a = None" by simp
  qed
  show "set_inv cSamples B ap (bs @ [p]) ?st2"
    unfolding set_inv_def using wf2 apf(3) full dist live2 by blast
qed

lemma set_inv_release:
  fixes st :: "'r state"
  assumes inv: "set_inv n B ap bs st"
      and hp: "heap st ap = Some (PtrArr (map Some bs @ replicate k None))"
      and len: "length bs + k = c" "0 < c"
  shows "\<exists>st'. FreeInnerBags c (Some ap) st = Some st' \<and>
           (\<forall>a. heap st' a = (if B \<le> a then None else heap st a))"
proof -
  let ?slots = "map Some bs @ replicate k None"
  have m: "max c 1 = c" using len by simp
  have tk: "take (max c 1) ?slots = ?slots" using len unfolding m by simp
  have sc: "slot_cells (heap st) ?slots = owned (heap st) bs" by (rule slot_cells_owned)
  have bl: "bag_live (heap st) b" if "b \<in> set bs" for b
    using inv that by (intro full_bag_live [of _ n]) (simp add: set_inv_def list_all_iff)
  have live: "list_all (\<lambda>s. case s of None \<Rightarrow> True | Some b \<Rightarrow> bag_live (heap st) b) ?slots"
    using bl by (auto simp: list_all_iff split: option.splits)
  have dist: "distinct (ap # slot_cells (heap st) ?slots)"
    using inv unfolding sc by (simp add: set_inv_def)
  have "FreeInnerBags c (Some ap) st =
          Some (release_heap (ap # slot_cells (heap st) (take (max c 1) ?slots)) st)"
  proof (rule FreeInnerBags_effect [OF hp])
    show "max c 1 \<le> length ?slots" using len unfolding m by simp
    show "list_all (\<lambda>s. case s of None \<Rightarrow> True | Some b \<Rightarrow> bag_live (heap st) b)
             (take (max c 1) ?slots)" unfolding tk by (rule live)
    show "distinct (ap # slot_cells (heap st) (take (max c 1) ?slots))"
      unfolding tk by (rule dist)
  qed
  then have f: "FreeInnerBags c (Some ap) st = Some (release_heap (ap # owned (heap st) bs) st)"
    unfolding tk sc .
  have eq: "{a. B \<le> a \<and> heap st a \<noteq> None} = set (ap # owned (heap st) bs)"
    using inv by (simp add: set_inv_def)
  have "heap (release_heap (ap # owned (heap st) bs) st) a = (if B \<le> a then None else heap st a)"
    for a
  proof (cases "a \<in> set (ap # owned (heap st) bs)")
    case True
    then have "B \<le> a" using eq by blast
    with True show ?thesis by (simp add: heap_release_heap)
  next
    case False
    then have "\<not> (B \<le> a \<and> heap st a \<noteq> None)" using eq by blast
    with False show ?thesis by (auto simp: heap_release_heap)
  qed
  with f show ?thesis by blast
qed

lemma set_inv_same_heap:
  assumes "set_inv n B ap bs st" "heap st1 = heap st" "brk st \<le> brk st1"
  shows "set_inv n B ap bs st1"
  using assms by (auto simp: set_inv_def heap_wf_def)

lemma slots_update:
  "0 < k \<Longrightarrow>
   (map Some bs @ replicate k None)[length bs := Some p] = map Some (bs @ [p]) @ replicate (k - 1) None"
  by (cases k) (simp_all add: list_update_append)

lemma GenerateInnerBags_loop_unfold:
  "GenerateSingleInnerBag env cSamples aWeights st = Some (r1, st1) \<Longrightarrow>
   GenerateInnerBags_loop env cSamples aWeights c ap slots i st =
     (case r1 of
        None \<Rightarrow> map_option (Pair None) (FreeInnerBags c (Some ap) st1)
      | Some p \<Rightarrow>
          if i < length slots then
            if c \<noteq> i + 1
            then GenerateInnerBags_loop env cSamples aWeights c ap (slots[i := Some p]) (i + 1)
                   (store ap (PtrArr (slots[i := Some p])) st1)
            else Some (Some ap, store ap (PtrArr (slots[i := Some p])) st1)
          else None)"
  by (subst GenerateInnerBags_loop.simps) (cases r1; simp add: Let_def)

lemma GenerateInnerBags_loop_correct:
  fixes st :: "'r state"
  assumes rng: "rng_in_range env cSamples"
      and wl: "\<And>aW. aWeights = Some aW \<Longrightarrow> cSamples \<le> length aW"
  shows "set_inv cSamples B ap bs st \<Longrightarrow>
         heap st ap = Some (PtrArr (map Some bs @ replicate (c - i) None)) \<Longrightarrow>
         length bs = i \<Longrightarrow> i < c \<Longrightarrow> distinct bs \<Longrightarrow>
         \<exists>r st'. GenerateInnerBags_loop env cSamples aWeights c ap
                    (map Some bs @ replicate (c - i) None) i st = Some (r, st') \<and>
           (\<forall>a<B. heap st' a = heap st a) \<and>
           (case r of
              None \<Rightarrow> (\<forall>a. B \<le> a \<longrightarrow> heap st' a = None)
            | Some p \<Rightarrow> p = ap \<and>
                (\<exists>bs'. heap st' ap = Some (PtrArr (map Some bs')) \<and> length bs' = c \<and>
                   distinct bs' \<and> list_all (full_bag (heap st') cSamples) bs'))"
proof (induction "c - i" arbitrary: i st bs)
  case 0
  then show ?case by simp
next
  case (Suc k)
  let ?slots = "map Some bs @ replicate (c - i) None"
  note inv = Suc.prems(1)
  obtain r1 st1 where g: "GenerateSingleInnerBag env cSamples aWeights st = Some (r1, st1)"
    using GenerateSingleInnerBag_defined [OF rng wl] by blast
  note unf = GenerateInnerBags_loop_unfold [OF g, of c ap ?slots i]
  show ?case
  proof (cases r1)
    case None
    have wf: "heap_wf st" using inv by (simp add: set_inv_def)
    from GenerateSingleInnerBag_None [OF g [unfolded None] wf]
    have same: "heap st1 = heap st" "brk st \<le> brk st1" by simp_all
    have inv1: "set_inv cSamples B ap bs st1" using inv same by (rule set_inv_same_heap)
    have hp1: "heap st1 ap = Some (PtrArr ?slots)" using Suc.prems(2) same by simp
    have "length bs + (c - i) = c" "0 < c" using Suc.prems(3,4) by simp_all
    from set_inv_release [OF inv1 hp1 this] obtain st' where
      f: "FreeInnerBags c (Some ap) st1 = Some st'" and
      e: "\<forall>a. heap st' a = (if B \<le> a then None else heap st1 a)"
      by blast
    have "GenerateInnerBags_loop env cSamples aWeights c ap ?slots i st = Some (None, st')"
      using unf None f by simp
    moreover have "\<forall>a<B. heap st' a = heap st a" using e same by simp
    moreover have "\<forall>a. B \<le> a \<longrightarrow> heap st' a = None" using e by simp
    ultimately show ?thesis by simp
  next
    case (Some p)
    let ?slots' = "?slots[i := Some p]"
    let ?st2 = "store ap (PtrArr ?slots') st1"
    have il: "i < length ?slots" using Suc.prems(3,4) by simp
    have sl: "?slots' = map Some (bs @ [p]) @ replicate (c - (i + 1)) None"
      using slots_update [of "c - i" bs p] Suc.prems(3,4) by simp
    note step =
      set_inv_step(1) [OF inv g [unfolded Some], where slots' = "?slots'"]
      set_inv_step(2) [OF inv g [unfolded Some], where slots' = "?slots'"]
      set_inv_step(3) [OF inv g [unfolded Some]]
    have hp2: "heap ?st2 ap = Some (PtrArr ?slots')" by (simp add: store_def)
    have d2: "distinct (bs @ [p])" using Suc.prems(5) step(3) by simp
    show ?thesis
    proof (cases "c = i + 1")
      case True
      have res: "GenerateInnerBags_loop env cSamples aWeights c ap ?slots i st = Some (Some ap, ?st2)"
        using unf Some il True by simp
      have "heap ?st2 ap = Some (PtrArr (map Some (bs @ [p])))"
        using hp2 sl True by simp
      moreover have "length (bs @ [p]) = c" using Suc.prems(3) True by simp
      moreover have "list_all (full_bag (heap ?st2) cSamples) (bs @ [p])"
        using step(1) by (simp add: set_inv_def)
      ultimately have "\<exists>bs'. heap ?st2 ap = Some (PtrArr (map Some bs')) \<and> length bs' = c \<and>
                   distinct bs' \<and> list_all (full_bag (heap ?st2) cSamples) bs'"
        using d2 by blast
      then show ?thesis using res step(2) by simp
    next
      case False
      have res: "GenerateInnerBags_loop env cSamples aWeights c ap ?slots i st =
                 GenerateInnerBags_loop env cSamples aWeights c ap ?slots' (i + 1) ?st2"
        using unf Some il False by simp
      have k: "k = c - (i + 1)" using Suc.hyps(2) by simp
      have lt: "i + 1 < c" using False Suc.prems(4) by simp
      have "\<exists>r st'. GenerateInnerBags_loop env cSamples aWeights c ap
                    (map Some (bs @ [p]) @ replicate (c - (i + 1)) None) (i + 1) ?st2 = Some (r, st') \<and>
           (\<forall>a<B. heap st' a = heap ?st2 a) \<and>
           (case r of
              None \<Rightarrow> (\<forall>a. B \<le> a \<longrightarrow> heap st' a = None)
            | Some p \<Rightarrow> p = ap \<and>
                (\<exists>bs'. heap st' ap = Some (PtrArr (map Some bs')) \<and> length bs' = c \<and>
                   distinct bs' \<and> list_all (full_bag (heap st') cSamples) bs'))"
      proof (rule Suc.hyps(1) [OF k step(1) _ _ lt d2])
        show "heap ?st2 ap = Some (PtrArr (map Some (bs @ [p]) @ replicate (c - (i + 1)) None))"
          using hp2 sl by simp
        show "length (bs @ [p]) = i + 1" using Suc.prems(3) by simp
      qed
      then obtain r st' where
        a: "GenerateInnerBags_loop env cSamples aWeights c ap ?slots' (i + 1) ?st2 = Some (r, st')"
        and b: "\<forall>a<B. heap st' a = heap ?st2 a"
        and c: "(case r of
              None \<Rightarrow> (\<forall>a. B \<le> a \<longrightarrow> heap st' a = None)
            | Some p \<Rightarrow> p = ap \<and>
                (\<exists>bs'. heap st' ap = Some (PtrArr (map Some bs')) \<and> length bs' = c \<and>
                   distinct bs' \<and> list_all (full_bag (heap st') cSamples) bs'))"
        unfolding sl by blast
      have "\<forall>a<B. heap st' a = heap st a" using b step(2) by simp
      with a c res show ?thesis by simp
    qed
  qed
qed


section \<open>The outcome of building a set of bags\<close>

lemma draws_add: "draws env n (a + b) r = draws env n b (draws env n a r)"
  by (induction a arbitrary: r) simp_all

lemma single_outcome:
  fixes st :: "'r state"
  assumes "rng_in_range env cSamples"
      and "\<And>aW. aWeights = Some aW \<Longrightarrow> cSamples \<le> length aW"
  shows "\<exists>r st'. GenerateSingleInnerBag env cSamples aWeights st = Some (r, st') \<and>
           (r = None \<longleftrightarrow> bag_fails env cSamples aWeights (brk st) (rng st)) \<and>
           (r \<noteq> None \<longrightarrow>
              read_bag st' (brk st) = bootstrap_contents env cSamples aWeights (rng st) \<and>
              bootstrap_contents env cSamples aWeights (rng st) \<noteq> None \<and>
              rng st' = draws env cSamples cSamples (rng st))"
proof -
  obtain r st' where g: "GenerateSingleInnerBag env cSamples aWeights st = Some (r, st')"
    using GenerateSingleInnerBag_defined [OF assms] by blast
  obtain counts r' where
    s: "sampling_loop env cSamples 0 (rng st) (replicate cSamples 0) = Some (counts, r')"
    using sampling_loop_defined [OF assms(1), of "replicate cSamples 0" 0 "rng st"] by auto
  have r': "r' = draws env cSamples cSamples (rng st)" using sampling_loop_rng [OF s] by simp
  show ?thesis
  proof (cases r)
    case None
    have "bag_fails env cSamples aWeights (brk st) (rng st)"
    proof (cases "EbmMalloc_ok env (brk st) 1 \<and> EbmMalloc_ok env (brk st + 1) cSamples \<and>
                  EbmMalloc_ok env (brk st + 2) cSamples")
      case True
      from GenerateSingleInnerBag_None_invalid [OF g [unfolded None]] True s
      show ?thesis
        by (auto simp: bag_fails_def bootstrap_contents_def effective_weights_def)
    next
      case False
      then show ?thesis by (simp add: bag_fails_def)
    qed
    with g None show ?thesis by simp
  next
    case (Some p)
    from GenerateSingleInnerBag_Some [OF g [unfolded Some]] have
      p: "p = brk st" and ok: "EbmMalloc_ok env (brk st) 1" "EbmMalloc_ok env (brk st + 1) cSamples"
        "EbmMalloc_ok env (brk st + 2) cSamples"
      by simp_all
    from GenerateSingleInnerBag_read [OF g [unfolded Some]] s obtain ws t where
      rb: "read_bag st' p = Some (counts, ws, t)" and rs: "r' = rng st'" and
      c: "(case aWeights of
               None \<Rightarrow> ws = map (size_to_FloatFast env) counts \<and>
                        t = size_to_FloatBig env cSamples
             | Some aW \<Rightarrow> cSamples \<le> length aW \<and>
                  ws = map (\<lambda>i. FloatFast_mul env (size_to_FloatFast env (counts ! i)) (aW ! i))
                         [0..<cSamples] \<and>
                  t = AddPositiveFloatsSafeBig env cSamples ws \<and> \<not> invalid_total t)"
      by auto
    have bc: "bootstrap_contents env cSamples aWeights (rng st) = Some (counts, ws, t)"
      using s c by (cases aWeights) (auto simp: bootstrap_contents_def effective_weights_def)
    have nf: "\<not> bag_fails env cSamples aWeights (brk st) (rng st)"
      using ok bc c by (cases aWeights) (auto simp: bag_fails_def)
    from g Some p rb bc nf rs r' show ?thesis by auto
  qed
qed

lemma read_bag_full_cong:
  assumes "full_bag (heap st) n b" and "\<And>a. a \<in> set (cells (heap st) b) \<Longrightarrow> heap st2 a = heap st a"
  shows "read_bag st2 b = read_bag st b"
proof -
  from assms(1) obtain c w t counts ws where
    x: "heap st b = Some (Bag \<lparr>m_aCountOccurrences = Some c, m_aWeights = Some w, m_weightTotal = Some t\<rparr>)"
       "heap st c = Some (SizeArr counts)" "heap st w = Some (FloatArr ws)"
    unfolding full_bag_def by blast
  have "cells (heap st) b = [b, c, w]" using x(1) by (simp add: cells_def)
  then have "heap st2 b = heap st b" "heap st2 c = heap st c" "heap st2 w = heap st w"
    using assms(2) by simp_all
  then show ?thesis using x by (simp add: read_bag_def)
qed

lemma set_inv_step_read:
  fixes st :: "'r state"
  assumes inv: "set_inv cSamples B ap bs st"
      and gen: "GenerateSingleInnerBag env cSamples aWeights st = Some (Some p, st1)"
  shows "\<And>b. b \<in> set bs \<Longrightarrow> read_bag (store ap (PtrArr slots') st1) b = read_bag st b"
    and "read_bag (store ap (PtrArr slots') st1) p = read_bag st1 p"
    and "brk (store ap (PtrArr slots') st1) = brk st + 3"
    and "rng (store ap (PtrArr slots') st1) = rng st1"
proof -
  let ?h = "heap st"
  let ?st2 = "store ap (PtrArr slots') st1"
  let ?h2 = "heap ?st2"
  from GenerateSingleInnerBag_Some [OF gen] obtain counts ws t where
    p: "p = brk st" and b1: "brk st1 = brk st + 3" and
    h1: "heap st1 = ?h(p \<mapsto> Bag \<lparr>m_aCountOccurrences = Some (p + 1),
                       m_aWeights = Some (p + 2), m_weightTotal = Some t\<rparr>,
                     p + 1 \<mapsto> SizeArr counts, p + 2 \<mapsto> FloatArr ws)"
    by blast
  note apf = set_inv_ap_facts [OF inv]
  note of = set_inv_owned_facts [OF inv]
  have ap_ne: "ap \<noteq> p" "ap \<noteq> p + 1" "ap \<noteq> p + 2" using apf(2) p by simp_all
  have h2: "?h2 = (heap st1)(ap \<mapsto> PtrArr slots')" by (simp add: store_def)
  have other: "?h2 a = ?h a" if "a \<noteq> ap" "a \<noteq> p" "a \<noteq> p + 1" "a \<noteq> p + 2" for a
    using that by (simp add: h2 h1)
  have old: "?h2 a = ?h a" if "a \<in> set (owned ?h bs)" for a
    using of(2,3) [OF that] p by (intro other) simp_all
  show "read_bag ?st2 b = read_bag st b" if "b \<in> set bs" for b
  proof (rule read_bag_full_cong)
    show "full_bag ?h cSamples b" using inv that by (simp add: set_inv_def list_all_iff)
    fix a assume "a \<in> set (cells ?h b)"
    then have "a \<in> set (owned ?h bs)" using cells_in_owned [OF that] by auto
    then show "?h2 a = ?h a" by (rule old)
  qed
  have "read_bag st1 p = Some (counts, ws, t)" using h1 by (rule read_bag_fresh)
  moreover have "heap ?st2 = (?h(ap \<mapsto> PtrArr slots'))(p \<mapsto> Bag \<lparr>m_aCountOccurrences = Some (p + 1),
                       m_aWeights = Some (p + 2), m_weightTotal = Some t\<rparr>,
                     p + 1 \<mapsto> SizeArr counts, p + 2 \<mapsto> FloatArr ws)"
    using ap_ne by (auto simp: h2 h1 fun_eq_iff)
  then have "read_bag ?st2 p = Some (counts, ws, t)" by (rule read_bag_fresh)
  ultimately show "read_bag ?st2 p = read_bag st1 p" by simp
  show "brk ?st2 = brk st + 3" using b1 by (simp add: store_def)
  show "rng ?st2 = rng st1" by (simp add: store_def)
qed

lemma GenerateInnerBags_loop_outcome:
  fixes st :: "'r state"
  assumes rng: "rng_in_range env cSamples"
      and wl: "\<And>aW. aWeights = Some aW \<Longrightarrow> cSamples \<le> length aW"
  shows "set_inv cSamples B ap bs st \<Longrightarrow>
         heap st ap = Some (PtrArr (map Some bs @ replicate (c - i) None)) \<Longrightarrow>
         length bs = i \<Longrightarrow> i < c \<Longrightarrow>
         brk st = b0 + 3 * i \<Longrightarrow> rng st = draws env cSamples (i * cSamples) r0 \<Longrightarrow>
         (\<forall>k<i. read_bag st (bs ! k) =
                  bootstrap_contents env cSamples aWeights (draws env cSamples (k * cSamples) r0)) \<Longrightarrow>
         \<exists>r st'. GenerateInnerBags_loop env cSamples aWeights c ap
                    (map Some bs @ replicate (c - i) None) i st = Some (r, st') \<and>
           (r = None \<longleftrightarrow>
              (\<exists>k. i \<le> k \<and> k < c \<and>
                 bag_fails env cSamples aWeights (b0 + 3 * k) (draws env cSamples (k * cSamples) r0))) \<and>
           (r \<noteq> None \<longrightarrow>
              rng st' = draws env cSamples (c * cSamples) r0 \<and>
              (\<exists>bs'. heap st' ap = Some (PtrArr (map Some bs')) \<and> length bs' = c \<and>
                 (\<forall>k<c. read_bag st' (bs' ! k) =
                    bootstrap_contents env cSamples aWeights
                      (draws env cSamples (k * cSamples) r0) \<and>
                    bootstrap_contents env cSamples aWeights
                      (draws env cSamples (k * cSamples) r0) \<noteq> None)))"
proof (induction "c - i" arbitrary: i st bs)
  case 0
  then show ?case by simp
next
  case (Suc n)
  let ?slots = "map Some bs @ replicate (c - i) None"
  let ?C = "\<lambda>k. bootstrap_contents env cSamples aWeights (draws env cSamples (k * cSamples) r0)"
  let ?F = "\<lambda>k. bag_fails env cSamples aWeights (b0 + 3 * k) (draws env cSamples (k * cSamples) r0)"
  note inv = Suc.prems(1)
  from single_outcome [OF rng wl, where st = st] obtain r1 st1 where
    g: "GenerateSingleInnerBag env cSamples aWeights st = Some (r1, st1)" and
    f: "r1 = None \<longleftrightarrow> ?F i" and
    ok: "r1 \<noteq> None \<Longrightarrow> read_bag st1 (brk st) = ?C i \<and> ?C i \<noteq> None \<and>
                        rng st1 = draws env cSamples cSamples (rng st)"
    unfolding Suc.prems(5,6) by blast
  note unf = GenerateInnerBags_loop_unfold [OF g, of c ap ?slots i]
  show ?case
  proof (cases r1)
    case None
    have wf: "heap_wf st" using inv by (simp add: set_inv_def)
    from GenerateSingleInnerBag_None [OF g [unfolded None] wf]
    have same: "heap st1 = heap st" "brk st \<le> brk st1" by simp_all
    have inv1: "set_inv cSamples B ap bs st1" using inv same by (rule set_inv_same_heap)
    have hp1: "heap st1 ap = Some (PtrArr ?slots)" using Suc.prems(2) same by simp
    have "length bs + (c - i) = c" "0 < c" using Suc.prems(3,4) by simp_all
    from set_inv_release [OF inv1 hp1 this] obtain st' where
      fr: "FreeInnerBags c (Some ap) st1 = Some st'"
      by blast
    have "GenerateInnerBags_loop env cSamples aWeights c ap ?slots i st = Some (None, st')"
      using unf None fr by simp
    moreover have "\<exists>k. i \<le> k \<and> k < c \<and> ?F k" using f None Suc.prems(4) by blast
    ultimately show ?thesis by simp
  next
    case (Some p)
    let ?slots' = "?slots[i := Some p]"
    let ?st2 = "store ap (PtrArr ?slots') st1"
    have nf: "\<not> ?F i" using f Some by simp
    have p: "p = brk st" using GenerateSingleInnerBag_Some [OF g [unfolded Some]] by simp
    have okp: "read_bag st1 p = ?C i" "?C i \<noteq> None"
              "rng st1 = draws env cSamples cSamples (rng st)"
      using ok Some p by simp_all
    have il: "i < length ?slots" using Suc.prems(3,4) by simp
    have sl: "?slots' = map Some (bs @ [p]) @ replicate (c - (i + 1)) None"
      using slots_update [of "c - i" bs p] Suc.prems(3,4) by simp
    note step = set_inv_step(1) [OF inv g [unfolded Some], where slots' = "?slots'"]
    note rd =
      set_inv_step_read(1) [OF inv g [unfolded Some], where slots' = "?slots'"]
      set_inv_step_read(2) [OF inv g [unfolded Some], where slots' = "?slots'"]
      set_inv_step_read(3) [OF inv g [unfolded Some], where slots' = "?slots'"]
      set_inv_step_read(4) [OF inv g [unfolded Some], where slots' = "?slots'"]
    have hp2: "heap ?st2 ap = Some (PtrArr ?slots')" by (simp add: store_def)
    have "draws env cSamples ((i + 1) * cSamples) r0
            = draws env cSamples (i * cSamples + cSamples) r0"
      by (simp add: add.commute)
    also have "\<dots> = draws env cSamples cSamples (draws env cSamples (i * cSamples) r0)"
      by (rule draws_add)
    finally have rng2: "rng ?st2 = draws env cSamples ((i + 1) * cSamples) r0"
      using rd(4) okp(3) Suc.prems(6) by simp
    have brk2: "brk ?st2 = b0 + 3 * (i + 1)" using rd(3) Suc.prems(5) by simp
    have cont2: "\<forall>k<i + 1. read_bag ?st2 ((bs @ [p]) ! k) = ?C k"
    proof (intro allI impI)
      fix k assume "k < i + 1"
      show "read_bag ?st2 ((bs @ [p]) ! k) = ?C k"
      proof (cases "k < i")
        case True
        then have "bs ! k \<in> set bs" using Suc.prems(3) by simp
        then have "read_bag ?st2 (bs ! k) = read_bag st (bs ! k)" by (rule rd(1))
        then show ?thesis using True Suc.prems(3,7) by (simp add: nth_append)
      next
        case False
        then have "k = i" using \<open>k < i + 1\<close> by simp
        then show ?thesis using rd(2) okp(1) Suc.prems(3) by (simp add: nth_append)
      qed
    qed
    show ?thesis
    proof (cases "c = i + 1")
      case True
      have res: "GenerateInnerBags_loop env cSamples aWeights c ap ?slots i st = Some (Some ap, ?st2)"
        using unf Some il True by simp
      have nofail: "\<not> (\<exists>k. i \<le> k \<and> k < c \<and> ?F k)"
      proof
        assume "\<exists>k. i \<le> k \<and> k < c \<and> ?F k"
        then obtain k where "i \<le> k" "k < c" "?F k" by blast
        then have "k = i" using True by simp
        with \<open>?F k\<close> nf show False by simp
      qed
      have h: "heap ?st2 ap = Some (PtrArr (map Some (bs @ [p])))"
        using hp2 sl True by simp
      have l: "length (bs @ [p]) = c" using Suc.prems(3) True by simp
      have nn: "\<forall>k<c. ?C k \<noteq> None"
      proof (intro allI impI)
        fix k assume "k < c"
        then have "k < i + 1" using True by simp
        then have "read_bag ?st2 ((bs @ [p]) ! k) = ?C k" using cont2 by blast
        moreover have "read_bag ?st2 ((bs @ [p]) ! k) \<noteq> None"
        proof -
          have "(bs @ [p]) ! k \<in> set (bs @ [p])" using \<open>k < i + 1\<close> Suc.prems(3) by (intro nth_mem) simp
          moreover have "list_all (full_bag (heap ?st2) cSamples) (bs @ [p])"
            using step by (simp add: set_inv_def)
          ultimately have "full_bag (heap ?st2) cSamples ((bs @ [p]) ! k)"
            unfolding list_all_iff by blast
          from full_bag_read [OF this] show ?thesis by auto
        qed
        ultimately show "?C k \<noteq> None" by simp
      qed
      have "\<exists>bs'. heap ?st2 ap = Some (PtrArr (map Some bs')) \<and> length bs' = c \<and>
                 (\<forall>k<c. read_bag ?st2 (bs' ! k) = ?C k \<and> ?C k \<noteq> None)"
        using h l cont2 nn True by (intro exI [of _ "bs @ [p]"]) simp
      with res nofail rng2 True show ?thesis by simp
    next
      case False
      have res: "GenerateInnerBags_loop env cSamples aWeights c ap ?slots i st =
                 GenerateInnerBags_loop env cSamples aWeights c ap ?slots' (i + 1) ?st2"
        using unf Some il False by simp
      have n: "n = c - (i + 1)" using Suc.hyps(2) by simp
      have lt: "i + 1 < c" using False Suc.prems(4) by simp
      have "\<exists>r st'. GenerateInnerBags_loop env cSamples aWeights c ap
                    (map Some (bs @ [p]) @ replicate (c - (i + 1)) None) (i + 1) ?st2 = Some (r, st') \<and>
           (r = None \<longleftrightarrow> (\<exists>k. i + 1 \<le> k \<and> k < c \<and> ?F k)) \<and>
           (r \<noteq> None \<longrightarrow>
              rng st' = draws env cSamples (c * cSamples) r0 \<and>
              (\<exists>bs'. heap st' ap = Some (PtrArr (map Some bs')) \<and> length bs' = c \<and>
                 (\<forall>k<c. read_bag st' (bs' ! k) = ?C k \<and> ?C k \<noteq> None)))"
      proof (rule Suc.hyps(1) [OF n step _ _ lt brk2 rng2 cont2])
        show "heap ?st2 ap = Some (PtrArr (map Some (bs @ [p]) @ replicate (c - (i + 1)) None))"
          using hp2 sl by simp
        show "length (bs @ [p]) = i + 1" using Suc.prems(3) by simp
      qed
      then obtain r st' where
        a: "GenerateInnerBags_loop env cSamples aWeights c ap ?slots' (i + 1) ?st2 = Some (r, st')"
        and b: "r = None \<longleftrightarrow> (\<exists>k. i + 1 \<le> k \<and> k < c \<and> ?F k)"
        and c: "r \<noteq> None \<longrightarrow>
              rng st' = draws env cSamples (c * cSamples) r0 \<and>
              (\<exists>bs'. heap st' ap = Some (PtrArr (map Some bs')) \<and> length bs' = c \<and>
                 (\<forall>k<c. read_bag st' (bs' ! k) = ?C k \<and> ?C k \<noteq> None))"
        unfolding sl by blast
      have e: "(\<exists>k. i + 1 \<le> k \<and> k < c \<and> ?F k) \<longleftrightarrow> (\<exists>k. i \<le> k \<and> k < c \<and> ?F k)"
      proof
        assume "\<exists>k. i + 1 \<le> k \<and> k < c \<and> ?F k"
        then obtain k where "i + 1 \<le> k" "k < c" "?F k" by blast
        then have "i \<le> k \<and> k < c \<and> ?F k" by simp
        then show "\<exists>k. i \<le> k \<and> k < c \<and> ?F k" by blast
      next
        assume "\<exists>k. i \<le> k \<and> k < c \<and> ?F k"
        then obtain k where k: "i \<le> k" "k < c" "?F k" by blast
        then have "k \<noteq> i" using nf by auto
        with k have "i + 1 \<le> k \<and> k < c \<and> ?F k" by simp
        then show "\<exists>k. i + 1 \<le> k \<and> k < c \<and> ?F k" by blast
      qed
      have r_iff: "r = None \<longleftrightarrow> (\<exists>k. i \<le> k \<and> k < c \<and> ?F k)" using b e by blast
      have "GenerateInnerBags_loop env cSamples aWeights c ap ?slots i st = Some (r, st')"
        using res a by (simp only:)
      with r_iff c show ?thesis by blast
    qed
  qed
qed

lemma bootstrap_contents_counts:
  assumes "bootstrap_contents env n aWeights r = Some (counts, ws, t)"
  shows "length counts = n" and "length ws = n" and "n \<le> SIZE_MAX env \<Longrightarrow> sum_list counts = n"
proof -
  from assms obtain r' where
    s: "sampling_loop env n 0 r (replicate n 0) = Some (counts, r')" and
    w: "ws = (case aWeights of None \<Rightarrow> map (size_to_FloatFast env) counts
              | Some aW \<Rightarrow> effective_weights env n counts aW)"
    by (auto simp: bootstrap_contents_def split: option.splits)
  show l: "length counts = n" using sampling_loop_length [OF s] by simp
  show "length ws = n" using w l by (cases aWeights) (simp_all add: effective_weights_def)
  assume "n \<le> SIZE_MAX env"
  then have "sum_list counts = sum_list (replicate n (0::nat)) + (n - 0)"
    by (intro sampling_loop_sum [OF s]) (simp add: sum_list_replicate)
  then show "sum_list counts = n" by (simp add: sum_list_replicate)
qed

section \<open>The claims\<close>

subsection \<open>C1\<close>



subsection \<open>C2\<close>

text \<open>
  Claim C2. A successful weighted-bootstrap construction without external weights
  returns a bag whose occurrence counts sum to \<open>cSamples\<close>, whose weights are the counts
  converted to \<^verbatim>\<open>FloatFast\<close>, and whose total is \<open>cSamples\<close> converted to \<^verbatim>\<open>FloatBig\<close>, for
  every generator and every state of it. \<open>cSamples\<close> is a \<^verbatim>\<open>size_t\<close>, so it is at most
  \<^verbatim>\<open>SIZE_MAX\<close>.
\<close>

theorem bootstrap_unweighted_contents:
  assumes "GenerateSingleInnerBag env cSamples None st = Some (Some p, st')"
      and "cSamples \<le> SIZE_MAX env"
  shows "\<exists>counts weights t.
           read_bag st' p = Some (counts, weights, t) \<and>
           length counts = cSamples \<and> sum_list counts = cSamples \<and>
           weights = map (size_to_FloatFast env) counts \<and>
           t = size_to_FloatBig env cSamples"
proof -
  from GenerateSingleInnerBag_read [OF assms(1)] obtain counts ws t where
    s: "sampling_loop env cSamples 0 (rng st) (replicate cSamples 0) = Some (counts, rng st')" and
    r: "read_bag st' p = Some (counts, ws, t)" "length counts = cSamples"
       "ws = map (size_to_FloatFast env) counts" "t = size_to_FloatBig env cSamples"
    by auto
  have "sum_list counts = sum_list (replicate cSamples (0::nat)) + (cSamples - 0)"
    using assms(2) by (intro sampling_loop_sum [OF s]) (simp add: sum_list_replicate)
  then have "sum_list counts = cSamples" by (simp add: sum_list_replicate)
  with r show ?thesis by simp
qed

theorem bootstrap_unweighted_contents_witness:
  "\<exists>p st'. GenerateSingleInnerBag (exact_env []) 4 None (init_state [2, 2, 0, 3])
              = Some (Some p, st') \<and> 4 \<le> SIZE_MAX (exact_env []) \<and>
           read_bag st' p = Some ([1, 0, 2, 1], [Finite 1, Finite 0, Finite 2, Finite 1], Finite 4)"
proof -
  obtain p st' where e: "GenerateSingleInnerBag (exact_env []) 4 None (init_state [2, 2, 0, 3])
       = Some (Some p, st')"
    by (simp add: eval_defs sampling_loop.simps)
  have m: "4 \<le> SIZE_MAX (exact_env [])" by (simp add: exact_env_def)
  have z: "replicate 4 (0::nat) = [0, 0, 0, 0]" by (simp add: numeral_eq_Suc)
  have "read_bag st' p = Some ([1, 0, 2, 1], [Finite 1, Finite 0, Finite 2, Finite 1], Finite 4)"
    using e by (auto simp: eval_defs sampling_loop.simps read_bag_def upt_rec z)
  with bootstrap_unweighted_contents [OF e m] e m show ?thesis by blast
qed

subsection \<open>C3\<close>

text \<open>
  Claim C3. Take \<open>cInnerBags > 0\<close>, a generator that draws within the bound, and external
  weights (when given) that cover \<open>cSamples\<close> entries. The orchestrator's construction
  returns, and it returns no slot sequence exactly when the allocation of the slot
  sequence is refused or the construction of some bag \<open>k < cInnerBags\<close> fails (an
  allocation of that bag is refused, or the total of its effective weights is invalid),
  where bag \<open>k\<close> is built at the addresses and with the generator state that \<open>k\<close>
  successful bags before it leave. When it returns no sequence, the memory is what it
  was before the call: the bags placed in the earlier slots and the slot sequence have
  been released. Otherwise the sequence has \<open>cInnerBags\<close> slots, all filled with distinct
  bags; bag \<open>k\<close> holds the bootstrap sample drawn from the generator after \<open>k * cSamples\<close>
  draws (\<open>cSamples\<close> counts that sum to \<open>cSamples\<close>, and the weights and total computed
  from them), the generator has advanced by \<open>cInnerBags * cSamples\<close> draws, and every
  block that was live before the call is untouched.
\<close>

theorem GenerateInnerBags_all_or_nothing:
  assumes "0 < cInnerBags" and "rng_in_range env cSamples"
      and "case aWeights of None \<Rightarrow> True | Some aW \<Rightarrow> cSamples \<le> length aW"
      and "heap_wf st"
  shows "\<exists>r st'. GenerateInnerBags env cSamples aWeights cInnerBags st = Some (r, st') \<and>
           (r = None \<longleftrightarrow>
              \<not> EbmMalloc_ok env (brk st) cInnerBags \<or>
              (\<exists>k<cInnerBags.
                 bag_fails env cSamples aWeights (brk st + 1 + 3 * k)
                   (draws env cSamples (k * cSamples) (rng st)))) \<and>
           (case r of
              None \<Rightarrow> heap st' = heap st
            | Some ap \<Rightarrow>
                rng st' = draws env cSamples (cInnerBags * cSamples) (rng st) \<and>
                (\<exists>bs. heap st' ap = Some (PtrArr (map Some bs)) \<and> length bs = cInnerBags \<and>
                   distinct bs \<and>
                   (\<forall>b\<in>set bs. \<exists>counts weights t.
                       read_bag st' b = Some (counts, weights, t) \<and>
                       length counts = cSamples \<and> length weights = cSamples) \<and>
                   (\<forall>k<cInnerBags. \<exists>counts weights t.
                       read_bag st' (bs ! k) = Some (counts, weights, t) \<and>
                       bootstrap_contents env cSamples aWeights
                         (draws env cSamples (k * cSamples) (rng st)) = Some (counts, weights, t) \<and>
                       (cSamples \<le> SIZE_MAX env \<longrightarrow> sum_list counts = cSamples)) \<and>
                   (\<forall>a<brk st. heap st' a = heap st a)))"
proof (cases "EbmMalloc_ok env (brk st) cInnerBags")
  case False
  then have "GenerateInnerBags env cSamples aWeights cInnerBags st
               = Some (None, st\<lparr>brk := brk st + 1\<rparr>)"
    using assms(1) by (simp add: GenerateInnerBags_def EbmMalloc_def)
  then show ?thesis using False by simp
next
  case True
  let ?ap = "brk st"
  let ?slots = "replicate cInnerBags None :: addr option list"
  let ?st2 = "store ?ap (PtrArr ?slots)
                (st\<lparr>heap := (heap st)(brk st \<mapsto> Uninit), brk := brk st + 1\<rparr>)"
  let ?C = "\<lambda>k. bootstrap_contents env cSamples aWeights (draws env cSamples (k * cSamples) (rng st))"
  let ?F = "\<lambda>k. bag_fails env cSamples aWeights (brk st + 1 + 3 * k)
                   (draws env cSamples (k * cSamples) (rng st))"
  have g: "GenerateInnerBags env cSamples aWeights cInnerBags st =
           GenerateInnerBags_loop env cSamples aWeights cInnerBags ?ap ?slots 0 ?st2"
    using True assms(1) by (simp add: GenerateInnerBags_def EbmMalloc_def Let_def)
  have wf2: "heap_wf ?st2" using assms(4) by (simp add: heap_wf_def store_def)
  have live: "{a. brk st \<le> a \<and> heap ?st2 a \<noteq> None} = {?ap}"
    using assms(4) by (auto simp: heap_wf_def store_def)
  have inv: "set_inv cSamples (brk st) ?ap [] ?st2"
    unfolding set_inv_def using wf2 live by (simp add: owned_def)
  have wl: "\<And>aW. aWeights = Some aW \<Longrightarrow> cSamples \<le> length aW" using assms(3) by simp
  have hp: "heap ?st2 ?ap = Some (PtrArr (map Some [] @ replicate (cInnerBags - 0) None))"
    by (simp add: store_def)
  have one: "\<exists>r st'. GenerateInnerBags_loop env cSamples aWeights cInnerBags ?ap
                    (map Some [] @ replicate (cInnerBags - 0) None) 0 ?st2 = Some (r, st') \<and>
           (\<forall>a<brk st. heap st' a = heap ?st2 a) \<and>
           (case r of
              None \<Rightarrow> (\<forall>a. brk st \<le> a \<longrightarrow> heap st' a = None)
            | Some p \<Rightarrow> p = ?ap \<and>
                (\<exists>bs'. heap st' ?ap = Some (PtrArr (map Some bs')) \<and> length bs' = cInnerBags \<and>
                   distinct bs' \<and> list_all (full_bag (heap st') cSamples) bs'))"
    by (rule GenerateInnerBags_loop_correct [OF assms(2) wl inv hp]) (simp_all add: assms(1))
  have two: "\<exists>r st'. GenerateInnerBags_loop env cSamples aWeights cInnerBags ?ap
                    (map Some [] @ replicate (cInnerBags - 0) None) 0 ?st2 = Some (r, st') \<and>
           (r = None \<longleftrightarrow>
              (\<exists>k. 0 \<le> k \<and> k < cInnerBags \<and>
                 bag_fails env cSamples aWeights (brk st + 1 + 3 * k)
                   (draws env cSamples (k * cSamples) (rng st)))) \<and>
           (r \<noteq> None \<longrightarrow>
              rng st' = draws env cSamples (cInnerBags * cSamples) (rng st) \<and>
              (\<exists>bs'. heap st' ?ap = Some (PtrArr (map Some bs')) \<and> length bs' = cInnerBags \<and>
                 (\<forall>k<cInnerBags. read_bag st' (bs' ! k) = ?C k \<and> ?C k \<noteq> None)))"
    by (rule GenerateInnerBags_loop_outcome [OF assms(2) wl inv hp])
       (simp_all add: assms(1) store_def)
  from one obtain r st' where
    a: "GenerateInnerBags env cSamples aWeights cInnerBags st = Some (r, st')" and
    b: "\<forall>a<brk st. heap st' a = heap st a" and
    c: "(case r of
              None \<Rightarrow> (\<forall>a. brk st \<le> a \<longrightarrow> heap st' a = None)
            | Some p \<Rightarrow> p = ?ap \<and>
                (\<exists>bs'. heap st' ?ap = Some (PtrArr (map Some bs')) \<and> length bs' = cInnerBags \<and>
                   distinct bs' \<and> list_all (full_bag (heap st') cSamples) bs'))"
    unfolding g by (auto simp: store_def)
  from two a have
    f: "r = None \<longleftrightarrow> (\<exists>k<cInnerBags. ?F k)" and
    s: "r \<noteq> None \<Longrightarrow>
              rng st' = draws env cSamples (cInnerBags * cSamples) (rng st) \<and>
              (\<exists>bs'. heap st' ?ap = Some (PtrArr (map Some bs')) \<and> length bs' = cInnerBags \<and>
                 (\<forall>k<cInnerBags. read_bag st' (bs' ! k) = ?C k \<and> ?C k \<noteq> None))"
    unfolding g by auto
  have fail_iff: "r = None \<longleftrightarrow>
              \<not> EbmMalloc_ok env (brk st) cInnerBags \<or> (\<exists>k<cInnerBags. ?F k)"
    using f True by simp
  show ?thesis
  proof (cases r)
    case None
    have "heap st' x = heap st x" for x
    proof (cases "x < brk st")
      case True
      then show ?thesis using b by simp
    next
      case False
      then have "heap st' x = None" "heap st x = None"
        using c None assms(4) by (simp_all add: heap_wf_def)
      then show ?thesis by simp
    qed
    then have "heap st' = heap st" by (rule ext)
    with a None fail_iff show ?thesis by simp
  next
    case (Some ap)
    from c Some obtain bs where
      d: "ap = brk st" "heap st' ap = Some (PtrArr (map Some bs))" "length bs = cInnerBags"
         "distinct bs" "list_all (full_bag (heap st') cSamples) bs"
      by auto
    from s Some obtain bs' where
      r: "rng st' = draws env cSamples (cInnerBags * cSamples) (rng st)" and
      e: "heap st' ?ap = Some (PtrArr (map Some bs'))"
         "\<forall>k<cInnerBags. read_bag st' (bs' ! k) = ?C k \<and> ?C k \<noteq> None"
      by auto
    have "map Some bs' = map Some bs" using d(1,2) e(1) by simp
    then have same: "bs' = bs" by (simp add: inj_map_eq_map)
    have old: "\<forall>b\<in>set bs. \<exists>counts weights t.
                       read_bag st' b = Some (counts, weights, t) \<and>
                       length counts = cSamples \<and> length weights = cSamples"
    proof
      fix b assume "b \<in> set bs"
      then have "full_bag (heap st') cSamples b" using d(5) by (simp add: list_all_iff)
      then show "\<exists>counts weights t. read_bag st' b = Some (counts, weights, t) \<and>
                       length counts = cSamples \<and> length weights = cSamples"
        by (rule full_bag_read)
    qed
    have new: "\<forall>k<cInnerBags. \<exists>counts weights t.
                       read_bag st' (bs ! k) = Some (counts, weights, t) \<and>
                       ?C k = Some (counts, weights, t) \<and>
                       (cSamples \<le> SIZE_MAX env \<longrightarrow> sum_list counts = cSamples)"
    proof (intro allI impI)
      fix k assume k: "k < cInnerBags"
      from e(2) k same have rb: "read_bag st' (bs ! k) = ?C k" "?C k \<noteq> None" by simp_all
      then obtain counts weights t where ck: "?C k = Some (counts, weights, t)" by auto
      from bootstrap_contents_counts(3) [OF ck]
      have "cSamples \<le> SIZE_MAX env \<longrightarrow> sum_list counts = cSamples" by simp
      with rb ck show "\<exists>counts weights t.
                       read_bag st' (bs ! k) = Some (counts, weights, t) \<and>
                       ?C k = Some (counts, weights, t) \<and>
                       (cSamples \<le> SIZE_MAX env \<longrightarrow> sum_list counts = cSamples)"
        by simp
    qed
    have "rng st' = draws env cSamples (cInnerBags * cSamples) (rng st) \<and>
                (\<exists>bs. heap st' ap = Some (PtrArr (map Some bs)) \<and> length bs = cInnerBags \<and>
                   distinct bs \<and>
                   (\<forall>b\<in>set bs. \<exists>counts weights t.
                       read_bag st' b = Some (counts, weights, t) \<and>
                       length counts = cSamples \<and> length weights = cSamples) \<and>
                   (\<forall>k<cInnerBags. \<exists>counts weights t.
                       read_bag st' (bs ! k) = Some (counts, weights, t) \<and>
                       ?C k = Some (counts, weights, t) \<and>
                       (cSamples \<le> SIZE_MAX env \<longrightarrow> sum_list counts = cSamples)) \<and>
                   (\<forall>a<brk st. heap st' a = heap st a))"
      using r d(2,3,4) old new b by blast
    with a Some fail_iff show ?thesis by simp
  qed
qed

theorem GenerateInnerBags_all_or_nothing_witness:
  "(0::nat) < 3 \<and> rng_in_range (exact_env [8]) 2 \<and> rng_in_range (exact_env []) 2 \<and>
   heap_wf (init_state [0, 1, 1, 1, 0, 0, 1::nat]) \<and>
   (\<exists>st'. GenerateInnerBags (exact_env [8]) 2 None 3 (init_state [0, 1, 1, 1, 0, 0, 1])
             = Some (None, st') \<and>
          heap st' = heap (init_state [0, 1, 1, 1, 0, 0, 1::nat])) \<and>
   bag_fails (exact_env [8]) 2 None 7 [0, 0, 1] \<and>
   (\<exists>ap st' bs.
      GenerateInnerBags (exact_env []) 2 None 3 (init_state [0, 1, 1, 1, 0, 0, 1])
        = Some (Some ap, st') \<and>
      heap st' ap = Some (PtrArr (map Some bs)) \<and> length bs = 3 \<and> distinct bs \<and>
      read_bag st' (bs ! 0) = Some ([1, 1], [Finite 1, Finite 1], Finite 2) \<and>
      read_bag st' (bs ! 1) = Some ([0, 2], [Finite 0, Finite 2], Finite 2) \<and>
      read_bag st' (bs ! 2) = Some ([2, 0], [Finite 2, Finite 0], Finite 2) \<and>
      rng st' = [1])"
proof -
  let ?s = "init_state [0, 1, 1, 1, 0, 0, 1::nat]"
  have z: "replicate 2 (0::nat) = [0, 0]" "replicate 3 (None::addr option) = [None, None, None]"
    by (simp_all add: numeral_eq_Suc)
  have h8: "(0::nat) < 3" "rng_in_range (exact_env [8]) 2"
          "case (None :: fl list option) of None \<Rightarrow> True | Some aW \<Rightarrow> 2 \<le> length aW"
          "heap_wf ?s"
    by (simp_all add: rng_in_range_exact_env heap_wf_init_state)
  have h0: "(0::nat) < 3" "rng_in_range (exact_env []) 2"
          "case (None :: fl list option) of None \<Rightarrow> True | Some aW \<Rightarrow> 2 \<le> length aW"
          "heap_wf ?s"
    by (simp_all add: rng_in_range_exact_env heap_wf_init_state)
  have bf: "bag_fails (exact_env [8]) 2 None 7 [0, 0, 1]"
    by (simp add: bag_fails_def exact_env_def)
  obtain st' where e: "GenerateInnerBags (exact_env [8]) 2 None 3 ?s = Some (None, st')"
    by (simp add: eval_defs sampling_loop.simps GenerateInnerBags_loop.simps
          FreeInnerBags_loop.simps z upt_rec)
  from GenerateInnerBags_all_or_nothing [OF h8] e
  have fail: "\<exists>st'. GenerateInnerBags (exact_env [8]) 2 None 3 ?s = Some (None, st') \<and>
                heap st' = heap ?s"
    by auto
  have d: "draws (exact_env []) 2 (0 * 2) (rng ?s) = [0, 1, 1, 1, 0, 0, 1]"
          "draws (exact_env []) 2 (1 * 2) (rng ?s) = [1, 1, 0, 0, 1]"
          "draws (exact_env []) 2 (2 * 2) (rng ?s) = [0, 0, 1]"
          "draws (exact_env []) 2 (3 * 2) (rng ?s) = [1]"
    by (simp_all add: numeral_eq_Suc init_state_def) (simp_all add: exact_env_def replay_NextFast_def)
  have c: "bootstrap_contents (exact_env []) 2 None [0, 1, 1, 1, 0, 0, 1]
             = Some ([1, 1], [Finite 1, Finite 1], Finite 2)"
          "bootstrap_contents (exact_env []) 2 None [1, 1, 0, 0, 1]
             = Some ([0, 2], [Finite 0, Finite 2], Finite 2)"
          "bootstrap_contents (exact_env []) 2 None [0, 0, 1]
             = Some ([2, 0], [Finite 2, Finite 0], Finite 2)"
    by (simp_all add: bootstrap_contents_def sampling_loop.simps exact_env_def
          replay_NextFast_def z)
  obtain ap st' where s: "GenerateInnerBags (exact_env []) 2 None 3 ?s = Some (Some ap, st')"
    by (simp add: eval_defs sampling_loop.simps GenerateInnerBags_loop.simps z upt_rec)
  from GenerateInnerBags_all_or_nothing [OF h0] s obtain bs where
    b: "rng st' = draws (exact_env []) 2 (3 * 2) (rng ?s)"
       "heap st' ap = Some (PtrArr (map Some bs))" "length bs = 3" "distinct bs"
       "\<forall>k<3. \<exists>counts weights t.
            read_bag st' (bs ! k) = Some (counts, weights, t) \<and>
            bootstrap_contents (exact_env []) 2 None (draws (exact_env []) 2 (k * 2) (rng ?s))
              = Some (counts, weights, t) \<and>
            (2 \<le> SIZE_MAX (exact_env []) \<longrightarrow> sum_list counts = 2)"
    by auto
  have "read_bag st' (bs ! 0) = Some ([1, 1], [Finite 1, Finite 1], Finite 2)"
       "read_bag st' (bs ! 1) = Some ([0, 2], [Finite 0, Finite 2], Finite 2)"
       "read_bag st' (bs ! 2) = Some ([2, 0], [Finite 2, Finite 0], Finite 2)"
    using b(5) [rule_format, of 0] b(5) [rule_format, of 1] b(5) [rule_format, of 2] c
    unfolding d by auto
  with s b(1-4) d(4) have succ: "\<exists>ap st' bs.
      GenerateInnerBags (exact_env []) 2 None 3 ?s = Some (Some ap, st') \<and>
      heap st' ap = Some (PtrArr (map Some bs)) \<and> length bs = 3 \<and> distinct bs \<and>
      read_bag st' (bs ! 0) = Some ([1, 1], [Finite 1, Finite 1], Finite 2) \<and>
      read_bag st' (bs ! 1) = Some ([0, 2], [Finite 0, Finite 2], Finite 2) \<and>
      read_bag st' (bs ! 2) = Some ([2, 0], [Finite 2, Finite 0], Finite 2) \<and>
      rng st' = [1]"
    by auto
  from h8(1,2) h0(2) h0(4) fail bf succ show ?thesis by blast
qed

subsection \<open>C4\<close>

text \<open>
  Claim C4, as the code has it. With external weights that cover \<open>cSamples\<close> entries (and
  a generator that draws within the bound), both factories return, and they return no
  bag exactly when one of the three allocations of the call is refused or the total of
  the effective weights (the external weights for the flat bag, the counts times the
  external weights for the bootstrap bag) is a NaN, infinite or at most 0. So a refused
  allocation makes them return no bag whatever the total would be, and when the three
  allocations succeed they return no bag exactly when the total is invalid. Whenever
  they return no bag, the memory is what it was before the call.
\<close>

theorem factories_fail_iff_invalid_total:
  assumes "cSamples \<le> length aW" and "rng_in_range env cSamples" and "heap_wf st"
  shows "(\<exists>r st'. GenerateFlatInnerBag env cSamples (Some aW) st = Some (r, st') \<and>
            (r = None \<longrightarrow> heap st' = heap st) \<and>
            (r = None \<longleftrightarrow>
               \<not> allocations_succeed env cSamples st \<or>
               invalid_total (AddPositiveFloatsSafeBig env cSamples (take cSamples aW)))) \<and>
         (\<exists>r st' counts. GenerateSingleInnerBag env cSamples (Some aW) st = Some (r, st') \<and>
            sampling_loop env cSamples 0 (rng st) (replicate cSamples 0)
              = Some (counts, draws env cSamples cSamples (rng st)) \<and>
            (r = None \<longrightarrow> heap st' = heap st) \<and>
            (r = None \<longleftrightarrow>
               \<not> allocations_succeed env cSamples st \<or>
               invalid_total (AddPositiveFloatsSafeBig env cSamples
                                (effective_weights env cSamples counts aW))))"
  using flat_outcome [OF assms(1,3)] bootstrap_outcome [OF assms] by blast

theorem factories_fail_iff_invalid_total_witness:
  "(2::nat) \<le> length [Finite 0, Finite 0] \<and> rng_in_range (exact_env []) 2 \<and>
   rng_in_range (exact_env [1]) 2 \<and>
   heap_wf (init_state [1, 0::nat]) \<and> allocations_succeed (exact_env []) 2 (init_state [1, 0]) \<and>
   invalid_total (AddPositiveFloatsSafeBig (exact_env []) 2 (take 2 [Finite 0, Finite 0])) \<and>
   (\<exists>st'. GenerateFlatInnerBag (exact_env []) 2 (Some [Finite 0, Finite 0]) (init_state [1, 0])
            = Some (None, st') \<and> heap st' = heap (init_state [1, 0::nat])) \<and>
   (\<exists>st'. GenerateSingleInnerBag (exact_env []) 2 (Some [Finite 0, Finite 0]) (init_state [1, 0])
            = Some (None, st') \<and> heap st' = heap (init_state [1, 0::nat])) \<and>
   \<not> allocations_succeed (exact_env [1]) 2 (init_state [1, 0]) \<and>
   (\<exists>st'. GenerateFlatInnerBag (exact_env [1]) 2 (Some [Finite 3, Finite 4]) (init_state [1, 0])
            = Some (None, st') \<and> heap st' = heap (init_state [1, 0::nat])) \<and>
   (\<exists>st'. GenerateSingleInnerBag (exact_env [1]) 2 (Some [Finite 3, Finite 4]) (init_state [1, 0])
            = Some (None, st') \<and> heap st' = heap (init_state [1, 0::nat])) \<and>
   (\<exists>p st'. GenerateFlatInnerBag (exact_env []) 2 (Some [Finite 3, Finite 4]) (init_state [1, 0])
            = Some (Some p, st'))"
proof -
  let ?s = "init_state [1, 0::nat]"
  have h: "(2::nat) \<le> length [Finite 0, Finite 0]" "rng_in_range (exact_env []) 2"
          "heap_wf ?s"
    by (simp_all add: rng_in_range_exact_env heap_wf_init_state)
  have h1: "(2::nat) \<le> length [Finite 3, Finite 4]" "rng_in_range (exact_env [1]) 2"
          "heap_wf ?s"
    by (simp_all add: rng_in_range_exact_env heap_wf_init_state)
  have h2: "(2::nat) \<le> length [Finite 3, Finite 4]" "rng_in_range (exact_env []) 2"
          "heap_wf ?s"
    by (simp_all add: rng_in_range_exact_env heap_wf_init_state)
  have ok: "allocations_succeed (exact_env []) 2 ?s"
    by (simp add: allocations_succeed_def exact_env_def)
  have nok: "\<not> allocations_succeed (exact_env [1]) 2 ?s"
    by (simp add: allocations_succeed_def exact_env_def init_state_def)
  have inv: "invalid_total (AddPositiveFloatsSafeBig (exact_env []) 2 (take 2 [Finite 0, Finite 0]))"
    by (simp add: exact_env_def exact_sum_def invalid_total_def le_zero_def)
  have val: "\<not> invalid_total (AddPositiveFloatsSafeBig (exact_env []) 2 (take 2 [Finite 3, Finite 4]))"
    by (simp add: exact_env_def exact_sum_def invalid_total_def le_zero_def isnan_def isinf_def)
  from factories_fail_iff_invalid_total [OF h] inv
  have a: "\<exists>st'. GenerateFlatInnerBag (exact_env []) 2 (Some [Finite 0, Finite 0]) ?s
            = Some (None, st') \<and> heap st' = heap ?s"
    by blast
  have z: "replicate 2 (0::nat) = [0, 0]" by (simp add: numeral_eq_Suc)
  obtain st' where e: "GenerateSingleInnerBag (exact_env []) 2 (Some [Finite 0, Finite 0]) ?s
        = Some (None, st')"
    by (simp add: eval_defs sampling_loop.simps z upt_rec)
  from factories_fail_iff_invalid_total [OF h] e
  have b: "\<exists>st'. GenerateSingleInnerBag (exact_env []) 2 (Some [Finite 0, Finite 0]) ?s
            = Some (None, st') \<and> heap st' = heap ?s"
    by auto
  from factories_fail_iff_invalid_total [OF h1] nok
  have c: "\<exists>st'. GenerateFlatInnerBag (exact_env [1]) 2 (Some [Finite 3, Finite 4]) ?s
            = Some (None, st') \<and> heap st' = heap ?s"
    and d: "\<exists>st'. GenerateSingleInnerBag (exact_env [1]) 2 (Some [Finite 3, Finite 4]) ?s
            = Some (None, st') \<and> heap st' = heap ?s"
    by blast+
  from factories_fail_iff_invalid_total [OF h2] ok val
  have f: "\<exists>p st'. GenerateFlatInnerBag (exact_env []) 2 (Some [Finite 3, Finite 4]) ?s
            = Some (Some p, st')"
    by (metis option.exhaust)
  from h h1(2) ok inv a b nok c d f show ?thesis by blast
qed

text \<open>
  The claim as it was stated, that the factories fail exactly when the total is invalid,
  is false where the allocator refuses the first request: for one sample of weight 1
  both factories return no bag, and the total is valid (for the flat bag, and for the
  counts \<open>[1]\<close> that the one draw would give the bootstrap bag).
\<close>

theorem fail_with_valid_total_counterexample:
  "map_option fst (GenerateFlatInnerBag (exact_env [0]) 1 (Some [Finite 1]) (init_state []))
     = Some None \<and>
   \<not> invalid_total (AddPositiveFloatsSafeBig (exact_env [0]) 1 [Finite 1]) \<and>
   map_option fst (GenerateSingleInnerBag (exact_env [0]) 1 (Some [Finite 1]) (init_state [0]))
     = Some None \<and>
   \<not> invalid_total (AddPositiveFloatsSafeBig (exact_env [0]) 1
                       (effective_weights (exact_env [0]) 1 [1] [Finite 1]))"
  by (simp add: eval_defs effective_weights_def)

subsection \<open>C5\<close>

text \<open>
  Claim C5. The total of every bag that either factory returns is not a NaN, not
  infinite, and greater than 0. With external weights this is what the check before
  the return leaves; without them the total is \<open>cSamples\<close> converted to \<^verbatim>\<open>FloatBig\<close>, which
  is finite and positive for a \<^verbatim>\<open>size_t\<close> that is at least 1.
\<close>

theorem returned_total_valid:
  assumes "GenerateSingleInnerBag env cSamples aWeights st = Some (Some p, st') \<or>
           GenerateFlatInnerBag env cSamples aWeights st = Some (Some p, st')"
      and "1 \<le> cSamples" and "cSamples \<le> SIZE_MAX env" and "size_conversion_ok env"
  shows "\<exists>counts weights t.
           read_bag st' p = Some (counts, weights, t) \<and>
           \<not> isnan t \<and> \<not> isinf t \<and> gt_zero t"
proof -
  from assms(2-4) obtain r where r: "0 < r" "size_to_FloatBig env cSamples = Finite r"
    by (auto simp: size_conversion_ok_def)
  then have conv: "\<not> isnan (size_to_FloatBig env cSamples) \<and> \<not> isinf (size_to_FloatBig env cSamples)
                   \<and> gt_zero (size_to_FloatBig env cSamples)"
    by (simp add: isnan_def isinf_def gt_zero_def)
  from assms(1) show ?thesis
  proof
    assume a: "GenerateSingleInnerBag env cSamples aWeights st = Some (Some p, st')"
    from GenerateSingleInnerBag_read [OF a] obtain counts ws t where
      b: "read_bag st' p = Some (counts, ws, t)"
         "(case aWeights of None \<Rightarrow> t = size_to_FloatBig env cSamples
           | Some aW \<Rightarrow> \<not> invalid_total t)"
      by (cases aWeights) auto
    have "\<not> isnan t \<and> \<not> isinf t \<and> gt_zero t"
      using b(2) conv valid_total by (cases aWeights) auto
    with b(1) show ?thesis by blast
  next
    assume a: "GenerateFlatInnerBag env cSamples aWeights st = Some (Some p, st')"
    from GenerateFlatInnerBag_Some [OF a] have
      c: "(case aWeights of None \<Rightarrow> True
           | Some aW \<Rightarrow> \<not> invalid_total (AddPositiveFloatsSafeBig env cSamples (take cSamples aW)))"
      by (cases aWeights) auto
    have "\<not> isnan (snd (snd (flat_contents env cSamples aWeights))) \<and>
          \<not> isinf (snd (snd (flat_contents env cSamples aWeights))) \<and>
          gt_zero (snd (snd (flat_contents env cSamples aWeights)))"
      using c conv valid_total by (cases aWeights) (auto simp: flat_contents_def)
    with GenerateFlatInnerBag_read [OF a] show ?thesis
      by (cases "flat_contents env cSamples aWeights") auto
  qed
qed

theorem returned_total_valid_witness:
  "\<exists>p st'. GenerateSingleInnerBag (exact_env []) 2 (Some [Finite 0, Finite 3]) (init_state [1, 0])
              = Some (Some p, st') \<and>
            (1::nat) \<le> 2 \<and> 2 \<le> SIZE_MAX (exact_env []) \<and> size_conversion_ok (exact_env []) \<and>
            (\<exists>counts weights t. read_bag st' p = Some (counts, weights, t) \<and>
               \<not> isnan t \<and> \<not> isinf t \<and> gt_zero t)"
proof -
  have z: "replicate 2 (0::nat) = [0, 0]" by (simp add: numeral_eq_Suc)
  obtain p st' where e: "GenerateSingleInnerBag (exact_env []) 2 (Some [Finite 0, Finite 3])
        (init_state [1, 0]) = Some (Some p, st')"
    by (simp add: eval_defs sampling_loop.simps z upt_rec)
  have m: "(1::nat) \<le> 2" "2 \<le> SIZE_MAX (exact_env [])" by (simp_all add: exact_env_def)
  from returned_total_valid [OF disjI1 [OF e] m size_conversion_ok_exact_env]
    e m size_conversion_ok_exact_env
  show ?thesis by blast
qed

subsection \<open>C6\<close>



subsection \<open>C7\<close>

text \<open>
  Claim C7. Two weighted-bootstrap constructions that start with the generator in the
  same state, with the same \<open>cSamples\<close> and the same generator (and the same
  \<^verbatim>\<open>size_t\<close>), return bags with identical occurrence counts and leave the generator in the
  same state, whatever the memory, the allocator, the external weights and the
  floating-point arithmetic of each run are.
\<close>

theorem bootstrap_counts_deterministic:
  assumes "GenerateSingleInnerBag env1 cSamples aWeights1 st1 = Some (Some p1, st1')"
      and "GenerateSingleInnerBag env2 cSamples aWeights2 st2 = Some (Some p2, st2')"
      and "rng st1 = rng st2"
      and "NextFast env1 = NextFast env2" and "SIZE_MAX env1 = SIZE_MAX env2"
  shows "\<exists>counts weights1 t1 weights2 t2.
           read_bag st1' p1 = Some (counts, weights1, t1) \<and>
           read_bag st2' p2 = Some (counts, weights2, t2) \<and>
           rng st1' = rng st2'"
proof -
  from GenerateSingleInnerBag_read [OF assms(1)] obtain counts1 ws1 t1 where
    a: "sampling_loop env1 cSamples 0 (rng st1) (replicate cSamples 0) = Some (counts1, rng st1')"
       "read_bag st1' p1 = Some (counts1, ws1, t1)"
    by blast
  from GenerateSingleInnerBag_read [OF assms(2)] obtain counts2 ws2 t2 where
    b: "sampling_loop env2 cSamples 0 (rng st2) (replicate cSamples 0) = Some (counts2, rng st2')"
       "read_bag st2' p2 = Some (counts2, ws2, t2)"
    by blast
  have "sampling_loop env1 cSamples 0 (rng st1) (replicate cSamples 0)
          = sampling_loop env2 cSamples 0 (rng st2) (replicate cSamples 0)"
    using sampling_loop_cong_env [OF assms(4,5)] assms(3) by simp
  with a(1) b(1) have "counts1 = counts2" "rng st1' = rng st2'" by simp_all
  with a(2) b(2) show ?thesis by blast
qed

theorem bootstrap_counts_deterministic_witness:
  "\<exists>p1 st1' p2 st2'.
     GenerateSingleInnerBag (exact_env []) 3 None (init_state [1, 1, 2, 0]) = Some (Some p1, st1') \<and>
     GenerateSingleInnerBag (exact_env [0]) 3 (Some [Finite 1, Finite 5, Finite 2])
       ((init_state [1, 1, 2, 0])\<lparr>brk := 1\<rparr>) = Some (Some p2, st2') \<and>
     (\<exists>counts weights1 t1 weights2 t2.
           read_bag st1' p1 = Some (counts, weights1, t1) \<and>
           read_bag st2' p2 = Some (counts, weights2, t2) \<and>
           rng st1' = rng st2')"
proof -
  have z: "replicate 3 (0::nat) = [0, 0, 0]" by (simp add: numeral_eq_Suc)
  obtain p1 st1' where e1: "GenerateSingleInnerBag (exact_env []) 3 None (init_state [1, 1, 2, 0])
       = Some (Some p1, st1')"
    by (simp add: eval_defs sampling_loop.simps)
  obtain p2 st2' where e2: "GenerateSingleInnerBag (exact_env [0]) 3
       (Some [Finite 1, Finite 5, Finite 2]) ((init_state [1, 1, 2, 0])\<lparr>brk := 1\<rparr>)
       = Some (Some p2, st2')"
    by (simp add: eval_defs sampling_loop.simps z upt_rec)
  have "rng (init_state [1, 1, 2, 0::nat]) = rng ((init_state [1, 1, 2, 0])\<lparr>brk := 1\<rparr>)"
       "NextFast (exact_env []) = NextFast (exact_env [0])"
       "SIZE_MAX (exact_env []) = SIZE_MAX (exact_env [0])"
    by (simp_all add: exact_env_def)
  from bootstrap_counts_deterministic [OF e1 e2 this] e1 e2 show ?thesis by blast
qed

subsection \<open>C8\<close>

text \<open>
  Claim C8. The bulk release does nothing when the slot sequence is absent. Otherwise
  it is the release the specification describes: it scans the first
  \<open>max cInnerBags 1\<close> slots of the sequence (one slot when \<open>cInnerBags = 0\<close>) in order,
  skips a null slot, releases the bag of every other slot, and then releases the slot
  sequence. When these slots hold live bags that share no block with each other or with
  the sequence, every block of these bags and the sequence itself are released and every
  other block is left as it was.
\<close>

theorem FreeInnerBags_scans_and_releases:
  "FreeInnerBags cInnerBags None st = Some st \<and>
   FreeInnerBags cInnerBags (Some ap) st = release cInnerBags (Some ap) st \<and>
   (heap st ap = Some (PtrArr slots) \<and> max cInnerBags 1 \<le> length slots \<and>
    list_all (\<lambda>s. case s of None \<Rightarrow> True | Some b \<Rightarrow> bag_live (heap st) b)
       (take (max cInnerBags 1) slots) \<and>
    distinct (ap # slot_cells (heap st) (take (max cInnerBags 1) slots))
    \<longrightarrow> FreeInnerBags cInnerBags (Some ap) st =
          Some (release_heap (ap # slot_cells (heap st) (take (max cInnerBags 1) slots)) st))"
proof (intro conjI impI)
  show "FreeInnerBags cInnerBags None st = Some st" by (simp add: FreeInnerBags_def)
  show "FreeInnerBags cInnerBags (Some ap) st = release cInnerBags (Some ap) st"
    by (rule FreeInnerBags_release)
next
  assume "heap st ap = Some (PtrArr slots) \<and> max cInnerBags 1 \<le> length slots \<and>
    list_all (\<lambda>s. case s of None \<Rightarrow> True | Some b \<Rightarrow> bag_live (heap st) b)
       (take (max cInnerBags 1) slots) \<and>
    distinct (ap # slot_cells (heap st) (take (max cInnerBags 1) slots))"
  then show "FreeInnerBags cInnerBags (Some ap) st =
          Some (release_heap (ap # slot_cells (heap st) (take (max cInnerBags 1) slots)) st)"
    by (intro FreeInnerBags_effect) blast+
qed

theorem FreeInnerBags_scans_and_releases_witness:
  "FreeInnerBags 0 None demo_state = Some demo_state \<and>
   (\<exists>st'. FreeInnerBags 0 (Some 0) demo_state = Some st' \<and>
      map (heap st') [0, 1, 2, 3] = [None, None, None, None] \<and>
      heap st' 4 = heap demo_state 4 \<and> heap st' 5 = Some (SizeArr [7]))"
proof -
  have hyp: "heap demo_state 0 = Some (PtrArr [Some 1, Some 4]) \<and>
       max 0 1 \<le> length [Some (1::nat), Some 4] \<and>
       list_all (\<lambda>s. case s of None \<Rightarrow> True | Some b \<Rightarrow> bag_live (heap demo_state) b)
         (take (max 0 1) [Some 1, Some 4]) \<and>
       distinct (0 # slot_cells (heap demo_state) (take (max 0 1) [Some 1, Some 4]))"
    by (simp add: bag_live_def cells_def demo_state_def)
  have sc: "slot_cells (heap demo_state) (take (max 0 1) [Some 1, Some 4]) = [1, 2, 3]"
    by (simp add: cells_def demo_state_def)
  from FreeInnerBags_scans_and_releases [of 0 demo_state 0 "[Some 1, Some 4]"] hyp
  have n: "FreeInnerBags 0 None demo_state = Some demo_state"
   and f: "FreeInnerBags 0 (Some 0) demo_state =
           Some (release_heap (0 # slot_cells (heap demo_state) (take (max 0 1) [Some 1, Some 4]))
                   demo_state)"
    by blast+
  have "map (heap (release_heap [0, 1, 2, 3] demo_state)) [0, 1, 2, 3] = [None, None, None, None]"
       "heap (release_heap [0, 1, 2, 3] demo_state) 4 = heap demo_state 4"
       "heap (release_heap [0, 1, 2, 3] demo_state) 5 = Some (SizeArr [7])"
    by (simp_all add: heap_release_heap demo_state_def)
  with n f sc show ?thesis by simp
qed

subsection \<open>C9\<close>

text \<open>
  Claim C9, as the code has it. Take a summation and a product that are sound (they may
  round and overflow), a generator that draws within the bound, and \<open>cSamples\<close> external
  weights that are finite and not negative. Both constructions return. The flat
  construction returns a bag exactly when its three allocations succeed, some external
  weight is strictly positive and the total of the weights is not infinite. The
  bootstrap construction returns a bag exactly when its three allocations succeed, some
  sample that was drawn at least once has a strictly positive weight and the total of
  the effective weights is not infinite: when every draw falls on entries of weight
  zero it returns no bag, although other weights are strictly positive. The total of
  every returned bag is not a NaN, not infinite, and greater than 0.
\<close>

theorem zero_weight_entries_success:
  assumes "sum_sound env" and "product_sound env" and "rng_in_range env cSamples"
      and "heap_wf st" and "length rs = cSamples" and "\<forall>r\<in>set rs. 0 \<le> r"
  shows "(\<exists>r st'. GenerateFlatInnerBag env cSamples (Some (map Finite rs)) st = Some (r, st') \<and>
            (r \<noteq> None \<longleftrightarrow>
               allocations_succeed env cSamples st \<and> (\<exists>i<cSamples. 0 < rs ! i) \<and>
               \<not> isinf (AddPositiveFloatsSafeBig env cSamples (map Finite rs))) \<and>
            (\<forall>p. r = Some p \<longrightarrow>
               (\<exists>counts weights t. read_bag st' p = Some (counts, weights, t) \<and>
                  \<not> isnan t \<and> \<not> isinf t \<and> gt_zero t))) \<and>
         (\<exists>r st' counts. GenerateSingleInnerBag env cSamples (Some (map Finite rs)) st = Some (r, st') \<and>
            sampling_loop env cSamples 0 (rng st) (replicate cSamples 0)
              = Some (counts, draws env cSamples cSamples (rng st)) \<and>
            (r \<noteq> None \<longleftrightarrow>
               allocations_succeed env cSamples st \<and>
               (\<exists>i<cSamples. 0 < counts ! i \<and> 0 < rs ! i) \<and>
               \<not> isinf (AddPositiveFloatsSafeBig env cSamples
                          (effective_weights env cSamples counts (map Finite rs)))) \<and>
            (\<forall>p. r = Some p \<longrightarrow>
               (\<exists>weights t. read_bag st' p = Some (counts, weights, t) \<and>
                  \<not> isnan t \<and> \<not> isinf t \<and> gt_zero t)))"
proof
  let ?aW = "map Finite rs"
  have len: "cSamples \<le> length ?aW" using assms(5) by simp
  have tk: "take cSamples ?aW = ?aW" using assms(5) by simp
  from flat_outcome [OF len assms(4), of env] obtain r st' where
    g: "GenerateFlatInnerBag env cSamples (Some ?aW) st = Some (r, st')" and
    i: "r = None \<longleftrightarrow> \<not> allocations_succeed env cSamples st \<or>
          invalid_total (AddPositiveFloatsSafeBig env cSamples ?aW)"
    unfolding tk by blast
  have s: "r \<noteq> None \<longleftrightarrow>
             allocations_succeed env cSamples st \<and> (\<exists>i<cSamples. 0 < rs ! i) \<and>
             \<not> isinf (AddPositiveFloatsSafeBig env cSamples ?aW)"
    using i flat_total_cases [OF assms(1,5,6)] by blast
  have v: "\<exists>counts weights t. read_bag st' p = Some (counts, weights, t) \<and>
             \<not> isnan t \<and> \<not> isinf t \<and> gt_zero t" if r: "r = Some p" for p
  proof -
    have "read_bag st' p = Some (flat_contents env cSamples (Some ?aW))"
      using g unfolding r by (rule GenerateFlatInnerBag_read)
    then have rb: "read_bag st' p = Some (replicate cSamples 1, ?aW,
                     AddPositiveFloatsSafeBig env cSamples ?aW)"
      using tk by (simp add: flat_contents_def)
    have "\<not> invalid_total (AddPositiveFloatsSafeBig env cSamples ?aW)" using i r by simp
    from valid_total [OF this] rb show ?thesis by blast
  qed
  from g s v
  show "\<exists>r st'. GenerateFlatInnerBag env cSamples (Some ?aW) st = Some (r, st') \<and>
            (r \<noteq> None \<longleftrightarrow>
               allocations_succeed env cSamples st \<and> (\<exists>i<cSamples. 0 < rs ! i) \<and>
               \<not> isinf (AddPositiveFloatsSafeBig env cSamples ?aW)) \<and>
            (\<forall>p. r = Some p \<longrightarrow>
               (\<exists>counts weights t. read_bag st' p = Some (counts, weights, t) \<and>
                  \<not> isnan t \<and> \<not> isinf t \<and> gt_zero t))"
    by blast
next
  let ?aW = "map Finite rs"
  have len: "cSamples \<le> length ?aW" using assms(5) by simp
  from bootstrap_outcome [OF len assms(3,4)] obtain r st' counts where
    g: "GenerateSingleInnerBag env cSamples (Some ?aW) st = Some (r, st')" and
    sl: "sampling_loop env cSamples 0 (rng st) (replicate cSamples 0)
           = Some (counts, draws env cSamples cSamples (rng st))" and
    i: "r = None \<longleftrightarrow> \<not> allocations_succeed env cSamples st \<or>
          invalid_total (AddPositiveFloatsSafeBig env cSamples
                           (effective_weights env cSamples counts ?aW))"
    by blast
  have lc: "length counts = cSamples" using sampling_loop_length [OF sl] by simp
  have bc: "list_all (\<lambda>c. c \<le> SIZE_MAX env) counts"
    by (rule sampling_loop_bounded [OF sl]) (simp add: list_all_length)
  have s: "r \<noteq> None \<longleftrightarrow>
             allocations_succeed env cSamples st \<and>
             (\<exists>i<cSamples. 0 < counts ! i \<and> 0 < rs ! i) \<and>
             \<not> isinf (AddPositiveFloatsSafeBig env cSamples
                        (effective_weights env cSamples counts ?aW))"
    using i bootstrap_total_cases [OF assms(1,2,5,6) lc bc] by blast
  have v: "\<exists>weights t. read_bag st' p = Some (counts, weights, t) \<and>
             \<not> isnan t \<and> \<not> isinf t \<and> gt_zero t" if r: "r = Some p" for p
  proof -
    from GenerateSingleInnerBag_read [OF g [unfolded r]] obtain counts' ws t where
      s': "sampling_loop env cSamples 0 (rng st) (replicate cSamples 0) = Some (counts', rng st')" and
      rb: "read_bag st' p = Some (counts', ws, t)" and
      nt: "\<not> invalid_total t"
      by auto
    have "counts' = counts" using s' sl by simp
    with rb valid_total [OF nt] show ?thesis by blast
  qed
  from g sl s v
  show "\<exists>r st' counts. GenerateSingleInnerBag env cSamples (Some ?aW) st = Some (r, st') \<and>
            sampling_loop env cSamples 0 (rng st) (replicate cSamples 0)
              = Some (counts, draws env cSamples cSamples (rng st)) \<and>
            (r \<noteq> None \<longleftrightarrow>
               allocations_succeed env cSamples st \<and>
               (\<exists>i<cSamples. 0 < counts ! i \<and> 0 < rs ! i) \<and>
               \<not> isinf (AddPositiveFloatsSafeBig env cSamples
                          (effective_weights env cSamples counts ?aW))) \<and>
            (\<forall>p. r = Some p \<longrightarrow>
               (\<exists>weights t. read_bag st' p = Some (counts, weights, t) \<and>
                  \<not> isnan t \<and> \<not> isinf t \<and> gt_zero t))"
    by blast
qed

theorem zero_weight_entries_success_witness:
  "sum_sound (exact_env []) \<and> product_sound (exact_env []) \<and> rng_in_range (exact_env []) 2 \<and>
   heap_wf (init_state [0, 0::nat]) \<and> list_all (\<lambda>r. 0 \<le> r) [0, 1::real] \<and>
   (\<exists>p st' counts weights t.
      GenerateFlatInnerBag (exact_env []) 2 (Some (map Finite [0, 1])) (init_state [0, 0])
        = Some (Some p, st') \<and>
      read_bag st' p = Some (counts, weights, t) \<and> \<not> isnan t \<and> \<not> isinf t \<and> gt_zero t) \<and>
   sampling_loop (exact_env []) 2 0 (rng (init_state [0, 0])) (replicate 2 0) = Some ([2, 0], []) \<and>
   (\<exists>st'. GenerateSingleInnerBag (exact_env []) 2 (Some (map Finite [0, 1])) (init_state [0, 0])
        = Some (None, st')) \<and>
   sum_sound (overflowing_env 340282346638528859811704183484516925440) \<and>
   product_sound (overflowing_env 340282346638528859811704183484516925440) \<and>
   rng_in_range (overflowing_env 340282346638528859811704183484516925440) 3 \<and>
   list_all (\<lambda>r. 0 \<le> r)
     [0, 340282346638528859811704183484516925440, 340282346638528859811704183484516925440::real] \<and>
   allocations_succeed (overflowing_env 340282346638528859811704183484516925440) 3
     (init_state [0, 0]) \<and>
   (\<exists>st'. GenerateFlatInnerBag (overflowing_env 340282346638528859811704183484516925440) 3
             (Some (map Finite [0, 340282346638528859811704183484516925440,
                                340282346638528859811704183484516925440]))
             (init_state [0, 0])
        = Some (None, st'))"
proof -
  let ?M = "340282346638528859811704183484516925440::real"
  let ?s = "init_state [0, 0::nat]"
  have z: "replicate 2 (0::nat) = [0, 0]" by (simp add: numeral_eq_Suc)
  have h: "sum_sound (exact_env [])" "product_sound (exact_env [])"
          "rng_in_range (exact_env []) 2" "heap_wf ?s"
    by (simp_all add: sum_sound_exact_env product_sound_exact_env rng_in_range_exact_env
                      heap_wf_init_state)
  have w: "length [0, 1::real] = 2" "\<forall>r\<in>set [0, 1::real]. 0 \<le> r" by simp_all
  have l: "list_all (\<lambda>r. 0 \<le> r) [0, 1::real]" by simp
  have ok: "allocations_succeed (exact_env []) 2 ?s"
    by (simp add: allocations_succeed_def exact_env_def)
  have s: "sampling_loop (exact_env []) 2 0 (rng ?s) (replicate 2 0) = Some ([2, 0], [])"
    by (simp add: sampling_loop.simps exact_env_def replay_NextFast_def init_state_def z)
  have f: "\<exists>i<2. 0 < [0, 1::real] ! i" by (rule exI [of _ 1]) simp
  have ni: "\<not> isinf (AddPositiveFloatsSafeBig (exact_env []) 2 (map Finite [0, 1]))"
    by (simp add: exact_env_def exact_sum_def isinf_def)
  have b: "\<not> (\<exists>i<2. 0 < [2, 0::nat] ! i \<and> 0 < [0, 1::real] ! i)"
  proof
    assume "\<exists>i<2. 0 < [2, 0::nat] ! i \<and> 0 < [0, 1::real] ! i"
    then obtain i where i: "i < 2" "0 < [2, 0::nat] ! i" "0 < [0, 1::real] ! i" by blast
    from i(1) have "i = 0 \<or> i = 1" by auto
    then show False using i(2,3) by auto
  qed
  note t = zero_weight_entries_success [OF h w]
  from t ok f ni have flat: "\<exists>p st' counts weights t.
      GenerateFlatInnerBag (exact_env []) 2 (Some (map Finite [0, 1])) ?s = Some (Some p, st') \<and>
      read_bag st' p = Some (counts, weights, t) \<and> \<not> isnan t \<and> \<not> isinf t \<and> gt_zero t"
    by (metis option.exhaust)
  from t s b have boot:
    "\<exists>st'. GenerateSingleInnerBag (exact_env []) 2 (Some (map Finite [0, 1])) ?s = Some (None, st')"
    by (metis option.inject prod.inject)
  have h2: "sum_sound (overflowing_env ?M)" "product_sound (overflowing_env ?M)"
           "rng_in_range (overflowing_env ?M) 3" "heap_wf ?s"
    by (simp_all add: sum_sound_overflowing_env product_sound_overflowing_env
                      rng_in_range_overflowing_env heap_wf_init_state)
  have w2: "length [0, ?M, ?M] = 3" "\<forall>r\<in>set [0, ?M, ?M]. 0 \<le> r" by simp_all
  have l2: "list_all (\<lambda>r. 0 \<le> r) [0, ?M, ?M]" by simp
  have ok2: "allocations_succeed (overflowing_env ?M) 3 ?s"
    by (simp add: allocations_succeed_def overflowing_env_def exact_env_def)
  have inf: "isinf (AddPositiveFloatsSafeBig (overflowing_env ?M) 3 (map Finite [0, ?M, ?M]))"
    by (simp add: overflowing_env_def exact_env_def overflowing_sum_def exact_sum_def isinf_def)
  have over: "\<exists>st'. GenerateFlatInnerBag (overflowing_env ?M) 3 (Some (map Finite [0, ?M, ?M])) ?s
                = Some (None, st')"
  proof -
    from zero_weight_entries_success [OF h2 w2, THEN conjunct1] obtain r st' where
      g: "GenerateFlatInnerBag (overflowing_env ?M) 3 (Some (map Finite [0, ?M, ?M])) ?s
            = Some (r, st')" and
      i: "r \<noteq> None \<longleftrightarrow> allocations_succeed (overflowing_env ?M) 3 ?s \<and>
            (\<exists>i<3. 0 < [0, ?M, ?M] ! i) \<and>
            \<not> isinf (AddPositiveFloatsSafeBig (overflowing_env ?M) 3 (map Finite [0, ?M, ?M]))"
      by (elim exE conjE)
    from i inf have "r = None" by (cases r) simp_all
    with g show ?thesis by (intro exI) simp
  qed
  from h(1,2,3,4) l flat s boot h2(1,2,3) l2 ok2 over show ?thesis by blast
qed

text \<open>
  The claim as it was stated is false for the bootstrap construction: with the weights 0
  and 1 and a generator that draws index 0 twice, every effective weight is 0 and no bag
  is returned.
\<close>

theorem zero_weight_entry_fails_counterexample:
  "map_option fst
     (GenerateSingleInnerBag (exact_env []) 2 (Some [Finite 0, Finite 1]) (init_state [0, 0]))
   = Some None"
proof -
  have z: "replicate 2 (0::nat) = [0, 0]" by (simp add: numeral_eq_Suc)
  show ?thesis by (simp add: eval_defs sampling_loop.simps z upt_rec)
qed

subsection \<open>C10\<close>

text \<open>
  Claim C10. When every allocation of a weighted-bootstrap construction with external
  weights succeeds and the construction still returns no bag, the total of the effective
  weights was invalid, the memory is as it was before the call, and the generator behind
  \<^verbatim>\<open>pRng\<close> has been advanced by \<open>cSamples\<close> draws: the failure does not restore it.
\<close>

theorem bootstrap_failure_advances_rng:
  assumes "GenerateSingleInnerBag env cSamples (Some aW) st = Some (None, st')"
      and "EbmMalloc_ok env (brk st) 1" and "EbmMalloc_ok env (brk st + 1) cSamples"
      and "EbmMalloc_ok env (brk st + 2) cSamples"
      and "heap_wf st"
  shows "rng st' = draws env cSamples cSamples (rng st) \<and> heap st' = heap st \<and>
         (\<exists>counts. sampling_loop env cSamples 0 (rng st) (replicate cSamples 0)
                      = Some (counts, rng st') \<and>
            invalid_total (AddPositiveFloatsSafeBig env cSamples
              (map (\<lambda>i. FloatFast_mul env (size_to_FloatFast env (counts ! i)) (aW ! i))
                 [0..<cSamples])))"
proof -
  from GenerateSingleInnerBag_None_invalid [OF assms(1-4)] obtain counts where
    s: "sampling_loop env cSamples 0 (rng st) (replicate cSamples 0) = Some (counts, rng st')" and
    i: "invalid_total (AddPositiveFloatsSafeBig env cSamples
              (map (\<lambda>i. FloatFast_mul env (size_to_FloatFast env (counts ! i)) (aW ! i))
                 [0..<cSamples]))"
    by auto
  have "rng st' = draws env cSamples cSamples (rng st)"
    using sampling_loop_rng [OF s] by simp
  moreover have "heap st' = heap st"
    using GenerateSingleInnerBag_None [OF assms(1,5)] by simp
  ultimately show ?thesis using s i by blast
qed

theorem bootstrap_failure_advances_rng_witness:
  "\<exists>st'. GenerateSingleInnerBag (exact_env []) 2 (Some [Finite 0, Finite 1]) (init_state [0, 0, 1, 1])
            = Some (None, st') \<and>
         rng (init_state [0, 0, 1, 1::nat]) = [0, 0, 1, 1] \<and> rng st' = [1, 1] \<and>
         rng st' = draws (exact_env []) 2 2 (rng (init_state [0, 0, 1, 1])) \<and>
         heap st' = heap (init_state [0, 0, 1, 1::nat])"
proof -
  have z: "replicate 2 (0::nat) = [0, 0]" by (simp add: numeral_eq_Suc)
  obtain st' where e: "GenerateSingleInnerBag (exact_env []) 2 (Some [Finite 0, Finite 1])
        (init_state [0, 0, 1, 1]) = Some (None, st')"
    by (simp add: eval_defs sampling_loop.simps z upt_rec)
  have r: "rng st' = [1, 1]"
    using e by (auto simp: eval_defs sampling_loop.simps z upt_rec)
  have ok: "EbmMalloc_ok (exact_env []) (brk (init_state [0, 0, 1, 1::nat])) 1"
       "EbmMalloc_ok (exact_env []) (brk (init_state [0, 0, 1, 1::nat]) + 1) 2"
       "EbmMalloc_ok (exact_env []) (brk (init_state [0, 0, 1, 1::nat]) + 2) 2"
       "heap_wf (init_state [0, 0, 1, 1::nat])"
    by (simp_all add: exact_env_def init_state_def heap_wf_def)
  from bootstrap_failure_advances_rng [OF e ok] e r show ?thesis
    by (auto simp: init_state_def)
qed

end
